theory Spec2Isabelle
  imports Main "HOL-Library.Log_Nat"
begin

section \<open>Python values used by transcribe.py\<close>

subsection \<open>Strings\<close>

text \<open>
  A Python \<^verbatim>\<open>str\<close> is a sequence of Unicode code points, so it is modelled as a list of
  code points (natural numbers); \<open>str\<close> embeds an ASCII literal.  The texts handled here
  come out of Whisper's tokenizer and the command line and hold Unicode scalar values only
  (no lone surrogates), so writing them to a file opened with \<^verbatim>\<open>encoding="utf-8"\<close> never
  fails in the encoder.
\<close>

type_synonym pystr = "nat list"

definition str :: "string \<Rightarrow> pystr" where
  "str s = map of_char s"

text \<open>
  \<^verbatim>\<open>str.isspace\<close> for one code point: the white-space table of CPython
  (\<^verbatim>\<open>_PyUnicode_IsWhitespace\<close>).
\<close>

definition isspace :: "nat \<Rightarrow> bool" where
  "isspace c \<longleftrightarrow>
     (9 \<le> c \<and> c \<le> 13) \<or> (28 \<le> c \<and> c \<le> 32) \<or> c = 133 \<or> c = 160 \<or> c = 5760 \<or>
     (8192 \<le> c \<and> c \<le> 8202) \<or> c = 8232 \<or> c = 8233 \<or> c = 8239 \<or> c = 8287 \<or> c = 12288"

text \<open>\<^verbatim>\<open>s.strip()\<close>: drop the leading and the trailing white space.\<close>

definition strip :: "pystr \<Rightarrow> pystr" where
  "strip s = rev (dropWhile isspace (rev (dropWhile isspace s)))"

subsection \<open>Integers as text\<close>

fun digits10 :: "nat \<Rightarrow> pystr" where
  "digits10 n = (if n < 10 then [48 + n] else digits10 (n div 10) @ [48 + n mod 10])"

declare digits10.simps [simp del]

text \<open>\<^verbatim>\<open>str(i)\<close> and \<^verbatim>\<open>f"{i}"\<close> for an \<^verbatim>\<open>int\<close>.\<close>

definition str_of_int :: "int \<Rightarrow> pystr" where
  "str_of_int i = (if i < 0 then 45 # digits10 (nat (- i)) else digits10 (nat i))"

text \<open>
  \<^verbatim>\<open>f"{i:0wd}"\<close> and \<^verbatim>\<open>"%0wd" % i\<close>: the decimal digits, filled with zeros on the left
  (after the sign) up to \<open>w\<close> characters; a longer number is not cut.
\<close>

definition zfill :: "nat \<Rightarrow> pystr \<Rightarrow> pystr" where
  "zfill w ds = replicate (w - length ds) 48 @ ds"

definition format_0d :: "nat \<Rightarrow> int \<Rightarrow> pystr" where
  "format_0d w i =
     (if i < 0 then 45 # zfill (w - 1) (digits10 (nat (- i))) else zfill w (digits10 (nat i)))"

subsection \<open>Floats\<close>

text \<open>
  A finite Python \<^verbatim>\<open>float\<close> (IEEE 754 binary64) is modelled by its exact value, a rational
  number.  \<open>fl\<close> rounds a rational to binary64, to nearest with ties to even: 53 significant
  bits in the normal range, multiples of \<open>2 powi (- 1074)\<close> below it.  Overflow to infinity
  is not modelled; no operation of the program below can overflow on a finite operand.
\<close>

definition bexp :: "rat \<Rightarrow> int" where
  "bexp y = (if 1 \<le> y then bitlen \<lfloor>y\<rfloor> - 1 else - bitlen (\<lceil>1 / y\<rceil> - 1))"

definition round_half_even :: "rat \<Rightarrow> int" where
  "round_half_even m =
     (let f = \<lfloor>m\<rfloor>; d = m - of_int f
      in if d < 1 / 2 then f else if 1 / 2 < d then f + 1 else if even f then f else f + 1)"

definition ulp_of :: "rat \<Rightarrow> rat" where
  "ulp_of a = 2 powi (max (bexp a) (- 1022) - 52)"

definition fl :: "rat \<Rightarrow> rat" where
  "fl y =
     (if y = 0 then 0
      else sgn y * of_int (round_half_even (\<bar>y\<bar> / ulp_of \<bar>y\<bar>)) * ulp_of \<bar>y\<bar>)"

text \<open>
  A rational is (the value of) a finite double when it is below the overflow threshold
  and rounding leaves it alone.
\<close>

definition finite_float :: "rat \<Rightarrow> bool" where
  "finite_float x \<longleftrightarrow> \<bar>x\<bar> < 2 ^ 1024"

definition is_double :: "rat \<Rightarrow> bool" where
  "is_double x \<longleftrightarrow> fl x = x \<and> finite_float x"

text \<open>\<^verbatim>\<open>int(x)\<close> on a finite float truncates towards zero.\<close>

definition py_int :: "rat \<Rightarrow> int" where
  "py_int x = (if 0 \<le> x then \<lfloor>x\<rfloor> else \<lceil>x\<rceil>)"

text \<open>C's \<^verbatim>\<open>fmod\<close>, which is exact: the result has the sign of \<open>x\<close>.\<close>

definition c_fmod :: "rat \<Rightarrow> rat \<Rightarrow> rat" where
  "c_fmod x y = x - y * of_int (py_int (x / y))"

text \<open>
  \<^verbatim>\<open>vx % wx\<close> and \<^verbatim>\<open>vx // wx\<close> on floats, after CPython's \<^verbatim>\<open>float_rem\<close> and
  \<^verbatim>\<open>_float_div_mod\<close>, for a divisor other than zero (the program divides by the
  constants 3600, 60 and 1 only).
\<close>

definition float_rem :: "rat \<Rightarrow> rat \<Rightarrow> rat" where
  "float_rem vx wx =
     (let m = c_fmod vx wx
      in if m \<noteq> 0 \<and> ((wx < 0) \<noteq> (m < 0)) then fl (m + wx) else m)"

definition float_floor_div :: "rat \<Rightarrow> rat \<Rightarrow> rat" where
  "float_floor_div vx wx =
     (let m = c_fmod vx wx;
          d0 = fl (fl (vx - m) / wx);
          d = (if m \<noteq> 0 \<and> ((wx < 0) \<noteq> (m < 0)) then fl (d0 - 1) else d0)
      in if d \<noteq> 0
         then (let f = of_int \<lfloor>d\<rfloor> in if 1 / 2 < d - f then fl (f + 1) else f)
         else 0)"

definition float_mul :: "rat \<Rightarrow> rat \<Rightarrow> rat" where
  "float_mul x y = fl (x * y)"

section \<open>Timestamp formatting\<close>

text \<open>
  \<^verbatim>\<open>datetime.timedelta(seconds=n)\<close> for an integer \<open>n\<close>, normalised to days and seconds
  of the day, and its \<^verbatim>\<open>__str__\<close>.
\<close>

datatype error = OverflowError | OSError | TranscriptionError

record timedelta =
  td_days :: int
  td_seconds :: int
  td_microseconds :: int

definition timedelta_of_seconds :: "int \<Rightarrow> error + timedelta" where
  "timedelta_of_seconds n =
     (let d = n div 86400; s = n mod 86400
      in if 999999999 < \<bar>d\<bar> then Inl OverflowError
         else Inr \<lparr>td_days = d, td_seconds = s, td_microseconds = 0\<rparr>)"

definition timedelta_str :: "timedelta \<Rightarrow> pystr" where
  "timedelta_str t =
     (let mm = td_seconds t div 60; ss = td_seconds t mod 60;
          hh = mm div 60; mm = mm mod 60;
          s = str_of_int hh @ str '':'' @ format_0d 2 mm @ str '':'' @ format_0d 2 ss;
          s = (if td_days t \<noteq> 0
               then str_of_int (td_days t) @ str '' day'' @
                    (if \<bar>td_days t\<bar> \<noteq> 1 then str ''s'' else []) @ str '', '' @ s
               else s);
          s = (if td_microseconds t \<noteq> 0
               then s @ str ''.'' @ format_0d 6 (td_microseconds t) else s)
      in s)"

definition format_timestamp :: "rat \<Rightarrow> error + pystr" where
  "format_timestamp seconds =
     (case timedelta_of_seconds (py_int seconds) of
        Inl e \<Rightarrow> Inl e
      | Inr t \<Rightarrow> Inr (timedelta_str t))"

definition format_srt_timestamp :: "rat \<Rightarrow> pystr" where
  "format_srt_timestamp seconds =
     (let hours = py_int (float_floor_div seconds 3600);
          minutes = py_int (float_floor_div (float_rem seconds 3600) 60);
          secs = py_int (float_rem seconds 60);
          millis = py_int (float_mul (float_rem seconds 1) 1000)
      in format_0d 2 hours @ str '':'' @ format_0d 2 minutes @ str '':'' @
         format_0d 2 secs @ str '','' @ format_0d 3 millis)"


section \<open>Data model\<close>

text \<open>
  The dictionaries Whisper returns: a segment carries more fields than the three the
  formatter reads; the result carries the full text, the detected language, the segments
  and, added by \<^verbatim>\<open>transcribe_audio\<close>, the elapsed time.
\<close>

record segment =
  seg_id :: int
  seek :: int
  seg_start :: rat
  seg_end :: rat
  seg_text :: pystr
  tokens :: "int list"
  temperature :: rat
  avg_logprob :: rat
  compression_ratio :: rat
  no_speech_prob :: rat

record transcription =
  res_text :: pystr
  res_language :: pystr
  res_segments :: "segment list"
  transcription_time :: rat

section \<open>JSON encoding\<close>

text \<open>
  \<^verbatim>\<open>repr\<close> of a finite float: the shortest decimal digit string that rounds back to the
  float (the nearest one to it when several of that length do), laid out by CPython's
  \<^verbatim>\<open>format_float_short\<close> with format code \<^verbatim>\<open>r\<close>: exponent notation when the decimal
  point position is at most \<open>-4\<close> or above \<open>16\<close>, else positional with \<^verbatim>\<open>.0\<close> added to
  an integral value.
\<close>

definition dexp :: "rat \<Rightarrow> int" where
  "dexp a = (if 1 \<le> a then int (floorlog 10 (nat \<lfloor>a\<rfloor>)) - 1
             else - int (floorlog 10 (nat (\<lceil>1 / a\<rceil> - 1))))"

definition pick_digits :: "rat \<Rightarrow> nat \<Rightarrow> int option" where
  "pick_digits a n =
     (let scale = 10 powi (dexp a + 1 - int n);
          lo = \<lfloor>a / scale\<rfloor>; hi = lo + 1;
          ok_lo = (fl (of_int lo * scale) = a);
          ok_hi = (fl (of_int hi * scale) = a)
      in if ok_lo \<and> ok_hi
         then Some (round_half_even (a / scale))
         else if ok_lo then Some lo else if ok_hi then Some hi else None)"

fun shortest_search :: "nat \<Rightarrow> nat \<Rightarrow> rat \<Rightarrow> int \<times> nat" where
  "shortest_search 0 n a = (round_half_even (a / 10 powi (dexp a + 1 - int n)), n)"
| "shortest_search (Suc k) n a =
     (case pick_digits a n of Some m \<Rightarrow> (m, n) | None \<Rightarrow> shortest_search k (Suc n) a)"

text \<open>The digits without trailing zeros, and the position of the decimal point.\<close>

definition shortest_digits :: "rat \<Rightarrow> pystr \<times> int" where
  "shortest_digits a =
     (let (m, n) = shortest_search 16 1 a;
          ds = digits10 (nat m)
      in (rev (dropWhile (\<lambda>c. c = 48) (rev ds)), dexp a + 1 + (int (length ds) - int n)))"

definition float_layout :: "pystr \<Rightarrow> int \<Rightarrow> pystr" where
  "float_layout ds decpt =
     (if decpt \<le> - 4 \<or> 16 < decpt
      then take 1 ds @ (if 1 < length ds then 46 # drop 1 ds else []) @ [101] @
           (if decpt - 1 < 0 then [45] else [43]) @ format_0d 2 \<bar>decpt - 1\<bar>
      else if decpt \<le> 0 then str ''0.'' @ replicate (nat (- decpt)) 48 @ ds
      else if nat decpt < length ds then take (nat decpt) ds @ 46 # drop (nat decpt) ds
      else ds @ replicate (nat decpt - length ds) 48 @ str ''.0'')"

definition float_repr :: "rat \<Rightarrow> pystr" where
  "float_repr x =
     (if x = 0 then str ''0.0''
      else (if x < 0 then [45] else []) @
           (case shortest_digits \<bar>x\<bar> of (ds, decpt) \<Rightarrow> float_layout ds decpt))"

text \<open>
  JSON values as Python holds them: \<^verbatim>\<open>None\<close>, booleans, integers, (finite) floats,
  strings, lists and dictionaries (in insertion order).  \<^verbatim>\<open>save_transcription\<close> builds them
  from strings, floats, lists and dictionaries only.
\<close>

datatype json =
  JNull | JBool bool | JInt int | JFloat rat | JString pystr
  | JList "json list" | JDict "(pystr \<times> json) list"

text \<open>
  \<^verbatim>\<open>py_encode_basestring\<close> (the string encoder under \<^verbatim>\<open>ensure_ascii=False\<close>): only the
  quote, the backslash and the control characters below \<open>0x20\<close> are escaped.
\<close>

definition hex_digit :: "nat \<Rightarrow> nat" where
  "hex_digit d = (if d < 10 then 48 + d else 87 + d)"

definition escape_char :: "nat \<Rightarrow> pystr" where
  "escape_char c =
     (if c = 92 then [92, 92]
      else if c = 34 then [92, 34]
      else if c = 8 then 92 # str ''b''
      else if c = 12 then 92 # str ''f''
      else if c = 10 then 92 # str ''n''
      else if c = 13 then 92 # str ''r''
      else if c = 9 then 92 # str ''t''
      else if c < 32 then 92 # str ''u00'' @ [hex_digit (c div 16), hex_digit (c mod 16)]
      else [c])"

definition encode_basestring :: "pystr \<Rightarrow> pystr" where
  "encode_basestring s = 34 # concat (map escape_char s) @ [34]"

text \<open>
  The encoder with \<^verbatim>\<open>indent=2\<close>: items on lines of their own, indented by two spaces per
  nesting level, separated by a comma, keys followed by colon and space; empty containers
  on one line.
\<close>

definition newline_indent :: "nat \<Rightarrow> pystr" where
  "newline_indent level = 10 # replicate (2 * level) 32"

fun intercalate :: "'a list \<Rightarrow> 'a list list \<Rightarrow> 'a list" where
  "intercalate sep [] = []"
| "intercalate sep [x] = x"
| "intercalate sep (x # y # ys) = x @ sep @ intercalate sep (y # ys)"

fun iterencode :: "nat \<Rightarrow> json \<Rightarrow> pystr" where
  "iterencode level JNull = str ''null''"
| "iterencode level (JBool b) = (if b then str ''true'' else str ''false'')"
| "iterencode level (JInt i) = str_of_int i"
| "iterencode level (JString s) = encode_basestring s"
| "iterencode level (JFloat x) = float_repr x"
| "iterencode level (JList xs) =
     (if xs = [] then str ''[]''
      else str ''['' @ newline_indent (Suc level) @
           intercalate (str '','' @ newline_indent (Suc level))
             (map (iterencode (Suc level)) xs) @
           newline_indent level @ str '']'')"
| "iterencode level (JDict kvs) =
     (if kvs = [] then str ''{}''
      else str ''{'' @ newline_indent (Suc level) @
           intercalate (str '','' @ newline_indent (Suc level))
             (map (\<lambda>(k, v). encode_basestring k @ str '': '' @ iterencode (Suc level) v) kvs) @
           newline_indent level @ str ''}'')"

definition json_dumps :: "json \<Rightarrow> pystr" where
  "json_dumps v = iterencode 0 v"


section \<open>Files\<close>

text \<open>
  The file system as the program sees it: the regular files with their text, the
  directories, and the paths that \<^verbatim>\<open>open(path, "w")\<close> refuses (a missing parent
  directory, a permission).  Paths are the strings handed to the operating system; the
  model does not resolve \<^verbatim>\<open>..\<close> or links.
\<close>

record fs =
  files :: "pystr \<rightharpoonup> pystr"
  dirs :: "pystr set"
  denied :: "pystr set"

definition path_exists :: "fs \<Rightarrow> pystr \<Rightarrow> bool" where
  "path_exists s p \<longleftrightarrow> files s p \<noteq> None \<or> p \<in> dirs s"

text \<open>A text file object open for writing is the text written so far.\<close>

definition file_write :: "pystr \<Rightarrow> pystr \<Rightarrow> pystr" where
  "file_write f s = f @ s"

text \<open>
  \<^verbatim>\<open>with open(path, "w", encoding="utf-8") as f: body\<close>: the file is created or truncated,
  the body writes to it, and it is closed with what was written.
\<close>

definition with_open_w :: "pystr \<Rightarrow> (pystr \<Rightarrow> pystr) \<Rightarrow> fs \<Rightarrow> error + fs" where
  "with_open_w path body s =
     (if path \<in> dirs s \<or> path \<in> denied s then Inl OSError
      else Inr (s\<lparr>files := (files s)(path \<mapsto> body [])\<rparr>))"

text \<open>\<^verbatim>\<open>Path.mkdir(exist_ok=True)\<close> and \<^verbatim>\<open>os.remove\<close>.\<close>

definition mkdir_exist_ok :: "pystr \<Rightarrow> fs \<Rightarrow> error + fs" where
  "mkdir_exist_ok p s =
     (if p \<in> dirs s then Inr s
      else if files s p \<noteq> None \<or> p \<in> denied s then Inl OSError
      else Inr (s\<lparr>dirs := insert p (dirs s)\<rparr>))"

definition os_remove :: "pystr \<Rightarrow> fs \<Rightarrow> error + fs" where
  "os_remove p s =
     (if files s p = None then Inl OSError
      else Inr (s\<lparr>files := (files s)(p := None)\<rparr>))"

section \<open>Transcript formatter\<close>

text \<open>The two subtitle loops of \<^verbatim>\<open>save_transcription\<close>, threading the file object.\<close>

fun srt_loop :: "int \<Rightarrow> segment list \<Rightarrow> pystr \<Rightarrow> pystr" where
  "srt_loop i [] f = f"
| "srt_loop i (segment # rest) f =
     (let start_time = format_srt_timestamp (seg_start segment);
          end_time = format_srt_timestamp (seg_end segment);
          f = file_write f (str_of_int i @ [10]);
          f = file_write f (start_time @ str '' --> '' @ end_time @ [10]);
          f = file_write f (strip (seg_text segment) @ [10, 10])
      in srt_loop (i + 1) rest f)"

fun vtt_loop :: "segment list \<Rightarrow> pystr \<Rightarrow> pystr" where
  "vtt_loop [] f = f"
| "vtt_loop (segment # rest) f =
     (let start_time = format_srt_timestamp (seg_start segment);
          end_time = format_srt_timestamp (seg_end segment);
          f = file_write f (start_time @ str '' --> '' @ end_time @ [10]);
          f = file_write f (strip (seg_text segment) @ [10, 10])
      in vtt_loop rest f)"

definition output_data :: "transcription \<Rightarrow> json" where
  "output_data result =
     JDict [(str ''text'', JString (res_text result)),
            (str ''language'', JString (res_language result)),
            (str ''segments'',
             JList (map (\<lambda>seg. JDict [(str ''start'', JFloat (seg_start seg)),
                                       (str ''end'', JFloat (seg_end seg)),
                                       (str ''text'', JString (seg_text seg))])
                        (res_segments result)))]"

definition save_transcription :: "transcription \<Rightarrow> pystr \<Rightarrow> pystr \<Rightarrow> fs \<Rightarrow> error + fs" where
  "save_transcription result output_path format_type s =
     (if format_type = str ''txt''
      then with_open_w output_path (\<lambda>f. file_write f (res_text result)) s
      else if format_type = str ''json''
      then with_open_w output_path (\<lambda>f. file_write f (json_dumps (output_data result))) s
      else if format_type = str ''srt''
      then with_open_w output_path (\<lambda>f. srt_loop 1 (res_segments result) f) s
      else if format_type = str ''vtt''
      then with_open_w output_path
             (\<lambda>f. vtt_loop (res_segments result) (file_write f (str ''WEBVTT'' @ [10, 10]))) s
      else Inr s)"


section \<open>Recognising a YouTube URL\<close>

text \<open>
  The fragment of regular expressions the pattern needs, and \<^verbatim>\<open>re.search\<close>: \<open>after r s\<close>
  lists what is left of \<open>s\<close> after each way of matching \<open>r\<close> at its start, and a search
  succeeds when the pattern matches at some position.
\<close>

datatype regex = Lit pystr | Cat regex regex | Alt regex regex | Opt regex

fun after :: "regex \<Rightarrow> pystr \<Rightarrow> pystr list" where
  "after (Lit w) s = (if take (length w) s = w then [drop (length w) s] else [])"
| "after (Cat a b) s = concat (map (after b) (after a s))"
| "after (Alt a b) s = after a s @ after b s"
| "after (Opt a) s = after a s @ [s]"

fun tails :: "'a list \<Rightarrow> 'a list list" where
  "tails [] = [[]]"
| "tails (x # xs) = (x # xs) # tails xs"

definition re_search :: "regex \<Rightarrow> pystr \<Rightarrow> bool" where
  "re_search r s = list_ex (\<lambda>t. after r t \<noteq> []) (tails s)"

text \<open>\<^verbatim>\<open>(https?://)?(www\.)?(youtube|youtu|youtube-nocookie)\.(com|be)/\<close>\<close>

definition youtube_pattern :: regex where
  "youtube_pattern =
     Cat (Opt (Cat (Lit (str ''http'')) (Cat (Opt (Lit (str ''s''))) (Lit (str ''://'')))))
    (Cat (Opt (Cat (Lit (str ''www'')) (Lit (str ''.''))))
    (Cat (Alt (Lit (str ''youtube'')) (Alt (Lit (str ''youtu'')) (Lit (str ''youtube-nocookie''))))
    (Cat (Lit (str ''.''))
    (Cat (Alt (Lit (str ''com'')) (Lit (str ''be'')))
         (Lit (str ''/''))))))"

definition is_youtube_url :: "pystr \<Rightarrow> bool" where
  "is_youtube_url url = re_search youtube_pattern url"

section \<open>Paths\<close>

text \<open>
  \<^verbatim>\<open>pathlib.Path\<close> on POSIX: a root (empty, one slash or exactly two) and the
  components, without empty and \<^verbatim>\<open>.\<close> components.  Joining with an absolute path gives
  that path.
\<close>

datatype path = Path (root: pystr) (parts: "pystr list")

fun split_on :: "'a \<Rightarrow> 'a list \<Rightarrow> 'a list list" where
  "split_on c [] = [[]]"
| "split_on c (x # xs) =
     (if x = c then [] # split_on c xs
      else (case split_on c xs of w # ws \<Rightarrow> (x # w) # ws | [] \<Rightarrow> [[x]]))"

definition parse_path :: "pystr \<Rightarrow> path" where
  "parse_path s =
     Path (if take 2 s = str ''//'' \<and> take 3 s \<noteq> str ''///'' then str ''//''
           else if take 1 s = str ''/'' then str ''/'' else [])
          (filter (\<lambda>p. p \<noteq> [] \<and> p \<noteq> str ''.'') (split_on 47 s))"

definition joinpath :: "path \<Rightarrow> pystr \<Rightarrow> path" where
  "joinpath p s =
     (let q = parse_path s
      in if root q \<noteq> [] then q else Path (root p) (parts p @ parts q))"

definition path_str :: "path \<Rightarrow> pystr" where
  "path_str p =
     (if root p = [] \<and> parts p = [] then str ''.''
      else root p @ intercalate (str ''/'') (parts p))"

definition path_name :: "path \<Rightarrow> pystr" where
  "path_name p = (if parts p = [] then [] else last (parts p))"

text \<open>\<^verbatim>\<open>name.rfind('.')\<close> and the stem: the name up to its last dot, when that dot is
  neither the first nor the last character.\<close>

definition rfind :: "nat \<Rightarrow> pystr \<Rightarrow> int" where
  "rfind c s =
     (if c \<in> set s then int (length s) - 1 - int (length (takeWhile (\<lambda>x. x \<noteq> c) (rev s)))
      else - 1)"

definition path_stem :: "path \<Rightarrow> pystr" where
  "path_stem p =
     (let name = path_name p; i = rfind 46 name
      in if 0 < i \<and> i < int (length name) - 1 then take (nat i) name else name)"

definition exists :: "fs \<Rightarrow> path \<Rightarrow> bool" where
  "exists s p = path_exists s (path_str p)"

section \<open>Orchestrator\<close>

text \<open>
  The parsed command line.  \<^verbatim>\<open>argparse\<close> admits only the listed choices for
  \<^verbatim>\<open>--model\<close> and \<^verbatim>\<open>--format\<close>.
\<close>

record args =
  video_path :: pystr
  model :: pystr
  language :: "pystr option"
  format :: pystr
  arg_output :: "pystr option"
  keep_audio :: bool

definition valid_args :: "args \<Rightarrow> bool" where
  "valid_args a \<longleftrightarrow>
     model a \<in> set [str ''tiny'', str ''base'', str ''small'', str ''medium'', str ''large''] \<and>
     format a \<in> set [str ''txt'', str ''json'', str ''srt'', str ''vtt'', str ''all'']"

text \<open>
  The collaborators outside the program, as an environment: yt-dlp (the downloaded
  file's name and content, or a failure), moviepy (the waveform written, or a failure
  that may leave a partial file behind), and Whisper (a result, or an exception).
\<close>

datatype extraction = AudioWritten pystr | AudioFailed "pystr option"

record env =
  yt_dlp :: "pystr \<Rightarrow> (pystr \<times> pystr) option"
  moviepy :: "pystr \<Rightarrow> extraction"
  whisper :: "pystr \<Rightarrow> pystr \<Rightarrow> pystr option \<Rightarrow> error + transcription"

datatype outcome = Returned | Exit nat | Uncaught error

definition input_dir :: path where
  "input_dir = parse_path (str ''input'')"

definition output_dir :: path where
  "output_dir = parse_path (str ''output'')"

definition setup_directories :: "fs \<Rightarrow> error option \<times> fs" where
  "setup_directories s =
     (case mkdir_exist_ok (path_str input_dir) s of
        Inl e \<Rightarrow> (Some e, s)
      | Inr s1 \<Rightarrow>
          (case mkdir_exist_ok (path_str output_dir) s1 of
             Inl e \<Rightarrow> (Some e, s1)
           | Inr s2 \<Rightarrow> (None, s2)))"

text \<open>
  \<^verbatim>\<open>download_youtube_video\<close> catches every exception and returns \<^verbatim>\<open>None\<close> then.
\<close>

definition download_youtube_video :: "env \<Rightarrow> pystr \<Rightarrow> path \<Rightarrow> fs \<Rightarrow> path option \<times> fs" where
  "download_youtube_video e url dir s =
     (case yt_dlp e url of
        None \<Rightarrow> (None, s)
      | Some (filename, content) \<Rightarrow>
          (Some (parse_path filename), s\<lparr>files := (files s)(filename \<mapsto> content)\<rparr>))"

text \<open>
  \<^verbatim>\<open>extract_audio\<close> returns \<^verbatim>\<open>False\<close> on any exception; what moviepy wrote before
  the exception stays on disk.
\<close>

definition extract_audio :: "env \<Rightarrow> pystr \<Rightarrow> pystr \<Rightarrow> fs \<Rightarrow> bool \<times> fs" where
  "extract_audio e video audio s =
     (if audio \<in> dirs s \<or> audio \<in> denied s then (False, s)
      else (case moviepy e video of
              AudioWritten wav \<Rightarrow> (True, s\<lparr>files := (files s)(audio \<mapsto> wav)\<rparr>)
            | AudioFailed None \<Rightarrow> (False, s)
            | AudioFailed (Some partial) \<Rightarrow> (False, s\<lparr>files := (files s)(audio \<mapsto> partial)\<rparr>)))"

definition transcribe_audio :: "env \<Rightarrow> pystr \<Rightarrow> pystr \<Rightarrow> pystr option \<Rightarrow> error + transcription" where
  "transcribe_audio e audio model_size lang = whisper e audio model_size lang"

text \<open>Python's truth value of \<^verbatim>\<open>args.output\<close>: given, and not the empty string.\<close>

definition truthy :: "pystr option \<Rightarrow> bool" where
  "truthy x = (case x of None \<Rightarrow> False | Some v \<Rightarrow> v \<noteq> [])"

definition choose_output_path :: "args \<Rightarrow> pystr list \<Rightarrow> path \<Rightarrow> pystr \<Rightarrow> pystr \<Rightarrow> path" where
  "choose_output_path a formats video_output_dir video_stem fmt =
     (if truthy (arg_output a) \<and> length formats = 1
      then parse_path (the (arg_output a))
      else joinpath video_output_dir (video_stem @ str ''_transcription.'' @ fmt))"

fun save_loop ::
  "args \<Rightarrow> pystr list \<Rightarrow> path \<Rightarrow> pystr \<Rightarrow> transcription \<Rightarrow> pystr list \<Rightarrow> fs \<Rightarrow> error option \<times> fs"
where
  "save_loop a formats video_output_dir video_stem result [] s = (None, s)"
| "save_loop a formats video_output_dir video_stem result (fmt # rest) s =
     (let output_path = choose_output_path a formats video_output_dir video_stem fmt
      in case save_transcription result (path_str output_path) fmt s of
           Inl e \<Rightarrow> (Some e, s)
         | Inr s' \<Rightarrow> save_loop a formats video_output_dir video_stem result rest s')"

text \<open>The formats to generate.\<close>

definition formats_of :: "args \<Rightarrow> pystr list" where
  "formats_of a =
     (if format a = str ''all'' then [str ''txt'', str ''json'', str ''srt'', str ''vtt'']
      else [format a])"

text \<open>The body of the \<^verbatim>\<open>try\<close> statement and its \<^verbatim>\<open>finally\<close> clause.\<close>

definition try_body :: "env \<Rightarrow> args \<Rightarrow> path \<Rightarrow> pystr \<Rightarrow> path \<Rightarrow> fs \<Rightarrow> error option \<times> fs" where
  "try_body e a video_output_dir video_stem audio_path s =
     (case transcribe_audio e (path_str audio_path) (model a) (language a) of
        Inl err \<Rightarrow> (Some err, s)
      | Inr result \<Rightarrow>
          (let formats = formats_of a
           in save_loop a formats video_output_dir video_stem result formats s))"

definition finally_clause :: "args \<Rightarrow> path \<Rightarrow> fs \<Rightarrow> error + fs" where
  "finally_clause a audio_path s =
     (if \<not> keep_audio a \<and> exists s audio_path then os_remove (path_str audio_path) s
      else Inr s)"

text \<open>
  Resolving the input: a YouTube URL is downloaded into \<^verbatim>\<open>input/\<close>; any other argument
  is a path, looked up as given and then under \<^verbatim>\<open>input/\<close>.  \<open>Inl\<close> carries the exit
  status.
\<close>

definition resolve_input :: "env \<Rightarrow> args \<Rightarrow> fs \<Rightarrow> (nat + path) \<times> fs" where
  "resolve_input e a s =
     (if is_youtube_url (video_path a)
      then (case download_youtube_video e (video_path a) input_dir s of
              (None, s') \<Rightarrow> (Inl 1, s')
            | (Some p, s') \<Rightarrow> (Inr p, s'))
      else (let p = parse_path (video_path a)
            in if \<not> exists s p
               then (let alt_path = joinpath input_dir (video_path a)
                     in if exists s alt_path then (Inr alt_path, s) else (Inl 1, s))
               else (Inr p, s)))"

definition main :: "env \<Rightarrow> args \<Rightarrow> fs \<Rightarrow> outcome \<times> fs" where
  "main e a s0 =
     (case setup_directories s0 of
        (Some err, s1) \<Rightarrow> (Uncaught err, s1)
      | (None, s1) \<Rightarrow>
     (case resolve_input e a s1 of
        (Inl status, s2) \<Rightarrow> (Exit status, s2)
      | (Inr video, s2) \<Rightarrow>
     (let video_stem = path_stem video;
          video_output_dir = joinpath output_dir video_stem
      in case mkdir_exist_ok (path_str video_output_dir) s2 of
           Inl err \<Rightarrow> (Uncaught err, s2)
         | Inr s3 \<Rightarrow>
     (let audio_path = joinpath video_output_dir (video_stem @ str ''_audio.wav'')
      in case extract_audio e (path_str video) (path_str audio_path) s3 of
           (False, s4) \<Rightarrow> (Exit 1, s4)
         | (True, s4) \<Rightarrow>
     (case try_body e a video_output_dir video_stem audio_path s4 of
        (raised, s5) \<Rightarrow>
     (case finally_clause a audio_path s5 of
        Inl err \<Rightarrow> (Uncaught err, s5)
      | Inr s6 \<Rightarrow>
          (case raised of Some err \<Rightarrow> (Uncaught err, s6) | None \<Rightarrow> (Returned, s6))))))))"

section \<open>The renderings as the specification words them\<close>

text \<open>
  A cue of the SRT file is its index line, the line with the time range, the stripped text
  and a blank line; a cue of the WebVTT file is the same without the index line.
\<close>

definition range_line :: "segment \<Rightarrow> pystr" where
  "range_line seg =
     format_srt_timestamp (seg_start seg) @ str '' --> '' @ format_srt_timestamp (seg_end seg)"

definition srt_cue :: "nat \<Rightarrow> segment \<Rightarrow> pystr" where
  "srt_cue i seg =
     str_of_int (int i) @ [10] @ range_line seg @ [10] @ strip (seg_text seg) @ [10] @ [10]"

definition srt_rendering :: "segment list \<Rightarrow> pystr" where
  "srt_rendering segs = concat (map (\<lambda>(i, seg). srt_cue i seg) (enumerate 1 segs))"

definition vtt_cue :: "segment \<Rightarrow> pystr" where
  "vtt_cue seg = range_line seg @ [10] @ strip (seg_text seg) @ [10] @ [10]"

definition vtt_rendering :: "segment list \<Rightarrow> pystr" where
  "vtt_rendering segs = str ''WEBVTT'' @ [10] @ [10] @ concat (map vtt_cue segs)"

text \<open>The first line of a text: what precedes its first newline.\<close>

definition first_line :: "pystr \<Rightarrow> pystr" where
  "first_line s = takeWhile (\<lambda>c. c \<noteq> 10) s"

text \<open>
  The default destination of a rendering as the specification writes it, the destination
  of a rendering (the custom path when one was given, not empty, and a single format is
  produced), and the writing of a list of renderings, each to its destination, up to the
  first error.
\<close>

definition default_path :: "pystr \<Rightarrow> pystr \<Rightarrow> pystr" where
  "default_path stem ext = str ''output/'' @ stem @ str ''/'' @ stem @ str ''_transcription.'' @ ext"

definition destination :: "args \<Rightarrow> pystr \<Rightarrow> pystr \<Rightarrow> pystr" where
  "destination a stem fmt =
     (case arg_output a of
        None \<Rightarrow> path_str (parse_path (default_path stem fmt))
      | Some p \<Rightarrow>
          if p \<noteq> [] \<and> format a \<noteq> str ''all'' then path_str (parse_path p)
          else path_str (parse_path (default_path stem fmt)))"

fun write_all :: "transcription \<Rightarrow> (pystr \<times> pystr) list \<Rightarrow> fs \<Rightarrow> error option \<times> fs" where
  "write_all result [] s = (None, s)"
| "write_all result ((path, fmt) # rest) s =
     (case save_transcription result path fmt s of
        Inl e \<Rightarrow> (Some e, s)
      | Inr s' \<Rightarrow> write_all result rest s')"

section \<open>Reading JSON back\<close>

text \<open>
  The reader the round trip is stated against, after Python's \<^verbatim>\<open>json.loads\<close>: white space
  between tokens, strings with their escapes (a \<^verbatim>\<open>\u\<close> escape names a code unit, two of
  them a surrogate pair; a raw control character is refused), numbers (an integer unless a
  fraction or an exponent is present, else the correctly rounded float), the three
  literals, lists and objects.  The recursion carries fuel, one unit per value, list item
  and member: \<open>json_loads\<close> supplies more than the text has characters.  Text must not
  follow the value.  The non-finite floats (\<^verbatim>\<open>NaN\<close>, \<^verbatim>\<open>Infinity\<close>) are outside the model.
\<close>

definition is_ws :: "nat \<Rightarrow> bool" where
  "is_ws c \<longleftrightarrow> c = 32 \<or> c = 9 \<or> c = 10 \<or> c = 13"

definition skip_ws :: "pystr \<Rightarrow> pystr" where
  "skip_ws s = dropWhile is_ws s"

definition is_digit :: "nat \<Rightarrow> bool" where
  "is_digit c \<longleftrightarrow> 48 \<le> c \<and> c \<le> 57"

definition decimal_value :: "pystr \<Rightarrow> nat" where
  "decimal_value ds = foldl (\<lambda>a c. 10 * a + (c - 48)) 0 ds"

definition hex_value :: "nat \<Rightarrow> nat option" where
  "hex_value c =
     (if 48 \<le> c \<and> c \<le> 57 then Some (c - 48)
      else if 97 \<le> c \<and> c \<le> 102 then Some (c - 87)
      else if 65 \<le> c \<and> c \<le> 70 then Some (c - 55)
      else None)"

definition decode_uXXXX :: "pystr \<Rightarrow> nat option" where
  "decode_uXXXX s =
     (case map hex_value (take 4 s) of
        [Some a, Some b, Some c, Some d] \<Rightarrow> Some (((a * 16 + b) * 16 + c) * 16 + d)
      | _ \<Rightarrow> None)"

definition unescape :: "nat \<Rightarrow> nat option" where
  "unescape e =
     (if e = 34 then Some 34 else if e = 92 then Some 92 else if e = 47 then Some 47
      else if e = 98 then Some 8 else if e = 102 then Some 12 else if e = 110 then Some 10
      else if e = 114 then Some 13 else if e = 116 then Some 9 else None)"

fun scanstring :: "pystr \<Rightarrow> (pystr \<times> pystr) option" where
  "scanstring [] = None"
| "scanstring (c # t) =
     (if c = 34 then Some ([], t)
      else if c = 92 then
        (case t of
           [] \<Rightarrow> None
         | e # t' \<Rightarrow>
             if e = 117 then
               (case decode_uXXXX t' of
                  None \<Rightarrow> None
                | Some uni \<Rightarrow>
                    if 55296 \<le> uni \<and> uni \<le> 56319 \<and> take 2 (drop 4 t') = [92, 117]
                    then (case decode_uXXXX (drop 6 t') of
                            None \<Rightarrow> None
                          | Some uni2 \<Rightarrow>
                              if 56320 \<le> uni2 \<and> uni2 \<le> 57343
                              then map_option (\<lambda>(r, rest). ((65536 + ((uni - 55296) * 1024 + (uni2 - 56320))) # r, rest))
                                     (scanstring (drop 10 t'))
                              else map_option (\<lambda>(r, rest). (uni # r, rest)) (scanstring (drop 4 t')))
                    else map_option (\<lambda>(r, rest). (uni # r, rest)) (scanstring (drop 4 t')))
             else
               (case unescape e of
                  None \<Rightarrow> None
                | Some ch \<Rightarrow> map_option (\<lambda>(r, rest). (ch # r, rest)) (scanstring t')))
      else if c < 32 then None
      else map_option (\<lambda>(r, rest). (c # r, rest)) (scanstring t))"

text \<open>
  The number pattern \<^verbatim>\<open>(-?(?:0|[1-9]\d*))(\.\d+)?([eE][-+]?\d+)?\<close>, part by part.
\<close>

definition scan_int_part :: "pystr \<Rightarrow> pystr \<times> pystr" where
  "scan_int_part s =
     (case s of
        [] \<Rightarrow> ([], [])
      | c # t \<Rightarrow> if c = 48 then ([48], t) else (takeWhile is_digit s, dropWhile is_digit s))"

definition scan_frac_part :: "pystr \<Rightarrow> pystr \<times> pystr" where
  "scan_frac_part s =
     (case s of
        [] \<Rightarrow> ([], s)
      | c # t \<Rightarrow>
          if c = 46 \<and> takeWhile is_digit t \<noteq> []
          then (takeWhile is_digit t, dropWhile is_digit t) else ([], s))"

definition scan_exp_part :: "pystr \<Rightarrow> int option \<times> pystr" where
  "scan_exp_part s =
     (case s of
        [] \<Rightarrow> (None, s)
      | c # t \<Rightarrow>
          if c = 101 \<or> c = 69
          then (let (sg, t') = (case t of
                                  [] \<Rightarrow> (1, t)
                                | d # r \<Rightarrow> if d = 43 then (1, r) else if d = 45 then (- 1, r) else (1, t))
                in if takeWhile is_digit t' \<noteq> []
                   then (Some (sg * int (decimal_value (takeWhile is_digit t'))), dropWhile is_digit t')
                   else (None, s))
          else (None, s))"

definition number_value :: "bool \<Rightarrow> pystr \<Rightarrow> pystr \<Rightarrow> int option \<Rightarrow> rat" where
  "number_value neg ip fp ex =
     (if neg then - 1 else 1) *
     (of_nat (decimal_value ip) + of_nat (decimal_value fp) / 10 ^ length fp) *
     10 powi (case ex of None \<Rightarrow> 0 | Some k \<Rightarrow> k)"

definition scan_number :: "pystr \<Rightarrow> (json \<times> pystr) option" where
  "scan_number s =
     (let (neg, s1) = (case s of [] \<Rightarrow> (False, s) | c # t \<Rightarrow> if c = 45 then (True, t) else (False, s));
          (ip, s2) = scan_int_part s1;
          (fp, s3) = scan_frac_part s2;
          (ex, s4) = scan_exp_part s3
      in if ip = [] then None
         else if fp = [] \<and> ex = None
         then Some (JInt ((if neg then - 1 else 1) * int (decimal_value ip)), s2)
         else (let v = fl (number_value neg ip fp ex)
               in if finite_float v then Some (JFloat v, s4) else None))"

text \<open>A Python dictionary built from the members in order: a repeated key keeps its
  place and takes the later value.\<close>

fun dict_insert :: "pystr \<Rightarrow> json \<Rightarrow> (pystr \<times> json) list \<Rightarrow> (pystr \<times> json) list" where
  "dict_insert k v [] = [(k, v)]"
| "dict_insert k v ((k', v') # kvs) =
     (if k = k' then (k, v) # kvs else (k', v') # dict_insert k v kvs)"

definition dict_of_pairs :: "(pystr \<times> json) list \<Rightarrow> (pystr \<times> json) list" where
  "dict_of_pairs kvs = foldl (\<lambda>d (k, v). dict_insert k v d) [] kvs"

fun parse_value :: "nat \<Rightarrow> pystr \<Rightarrow> (json \<times> pystr) option"
  and parse_items :: "nat \<Rightarrow> pystr \<Rightarrow> (json list \<times> pystr) option"
  and parse_members :: "nat \<Rightarrow> pystr \<Rightarrow> ((pystr \<times> json) list \<times> pystr) option"
where
  "parse_value 0 s = None"
| "parse_value (Suc n) s =
     (case s of
        [] \<Rightarrow> None
      | c # t \<Rightarrow>
          if c = 34 then map_option (\<lambda>(r, rest). (JString r, rest)) (scanstring t)
          else if c = 123 then
            (case skip_ws t of
               [] \<Rightarrow> None
             | d # t' \<Rightarrow>
                 if d = 125 then Some (JDict [], t')
                 else map_option (\<lambda>(kvs, rest). (JDict (dict_of_pairs kvs), rest))
                        (parse_members n (d # t')))
          else if c = 91 then
            (case skip_ws t of
               [] \<Rightarrow> None
             | d # t' \<Rightarrow>
                 if d = 93 then Some (JList [], t')
                 else map_option (\<lambda>(vs, rest). (JList vs, rest)) (parse_items n (d # t')))
          else if take 4 s = str ''null'' then Some (JNull, drop 4 s)
          else if take 4 s = str ''true'' then Some (JBool True, drop 4 s)
          else if take 5 s = str ''false'' then Some (JBool False, drop 5 s)
          else scan_number s)"
| "parse_items 0 s = None"
| "parse_items (Suc n) s =
     (case parse_value n s of
        None \<Rightarrow> None
      | Some (v, rest) \<Rightarrow>
          (case skip_ws rest of
             [] \<Rightarrow> None
           | c # t \<Rightarrow>
               if c = 44 then map_option (\<lambda>(vs, r). (v # vs, r)) (parse_items n (skip_ws t))
               else if c = 93 then Some ([v], t)
               else None))"
| "parse_members 0 s = None"
| "parse_members (Suc n) s =
     (case s of
        [] \<Rightarrow> None
      | q # t \<Rightarrow>
          if q \<noteq> 34 then None
          else (case scanstring t of
                  None \<Rightarrow> None
                | Some (key, rest) \<Rightarrow>
                    (case skip_ws rest of
                       [] \<Rightarrow> None
                     | c # t1 \<Rightarrow>
                         if c \<noteq> 58 then None
                         else (case parse_value n (skip_ws t1) of
                                 None \<Rightarrow> None
                               | Some (v, rest2) \<Rightarrow>
                                   (case skip_ws rest2 of
                                      [] \<Rightarrow> None
                                    | c2 # t2 \<Rightarrow>
                                        if c2 = 44
                                        then map_option (\<lambda>(kvs, r). ((key, v) # kvs, r))
                                               (parse_members n (skip_ws t2))
                                        else if c2 = 125 then Some ([(key, v)], t2)
                                        else None)))))"

definition json_loads :: "pystr \<Rightarrow> json option" where
  "json_loads s =
     (case parse_value (Suc (length s)) (skip_ws s) of
        None \<Rightarrow> None
      | Some (v, rest) \<Rightarrow> if skip_ws rest = [] then Some v else None)"

text \<open>
  A character that ends a number, and the number that a digit string with a decimal point
  position denotes.
\<close>

definition delim :: "nat \<Rightarrow> bool" where
  "delim d \<longleftrightarrow> \<not> is_digit d \<and> d \<noteq> 46 \<and> d \<noteq> 101 \<and> d \<noteq> 69"

definition num_value :: "pystr \<Rightarrow> int \<Rightarrow> rat" where
  "num_value ds decpt = of_nat (decimal_value ds) * 10 powi (decpt - int (length ds))"

text \<open>
  The object that the JSON rendering is to hold, and the text that holds it: the three keys
  in order, every nested line two spaces deeper than the line that opens its container.
\<close>

definition segment_json :: "segment \<Rightarrow> json" where
  "segment_json seg =
     JDict [(str ''start'', JFloat (seg_start seg)),
            (str ''end'', JFloat (seg_end seg)),
            (str ''text'', JString (seg_text seg))]"

definition result_json :: "transcription \<Rightarrow> json" where
  "result_json result =
     JDict [(str ''text'', JString (res_text result)),
            (str ''language'', JString (res_language result)),
            (str ''segments'', JList (map segment_json (res_segments result)))]"

definition segment_text :: "segment \<Rightarrow> pystr" where
  "segment_text seg =
     str ''{'' @ newline_indent 3 @
     encode_basestring (str ''start'') @ str '': '' @ float_repr (seg_start seg) @ str '','' @
     newline_indent 3 @
     encode_basestring (str ''end'') @ str '': '' @ float_repr (seg_end seg) @ str '','' @
     newline_indent 3 @
     encode_basestring (str ''text'') @ str '': '' @ encode_basestring (seg_text seg) @
     newline_indent 2 @ str ''}''"

definition segments_text :: "segment list \<Rightarrow> pystr" where
  "segments_text segs =
     (if segs = [] then str ''[]''
      else str ''['' @ newline_indent 2 @
           intercalate (str '','' @ newline_indent 2) (map segment_text segs) @
           newline_indent 1 @ str '']'')"

definition result_text :: "transcription \<Rightarrow> pystr" where
  "result_text result =
     str ''{'' @ newline_indent 1 @
     encode_basestring (str ''text'') @ str '': '' @ encode_basestring (res_text result) @ str '','' @
     newline_indent 1 @
     encode_basestring (str ''language'') @ str '': '' @ encode_basestring (res_language result) @
     str '','' @ newline_indent 1 @
     encode_basestring (str ''segments'') @ str '': '' @ segments_text (res_segments result) @
     newline_indent 0 @ str ''}''"

text \<open>
  The bytes of a text file: text written to a file opened with \<^verbatim>\<open>encoding="utf-8"\<close> is
  stored in UTF-8.  A character is encodable when it is a Unicode scalar value (a code point
  that is not a surrogate); the decoder is the strict one, which refuses overlong forms,
  surrogates and code points past \<open>0x10FFFF\<close>.
\<close>

definition scalar :: "nat \<Rightarrow> bool" where
  "scalar c \<longleftrightarrow> c < 55296 \<or> (57344 \<le> c \<and> c < 1114112)"

definition utf8_char :: "nat \<Rightarrow> nat list option" where
  "utf8_char c =
     (if c < 128 then Some [c]
      else if c < 2048 then Some [192 + c div 64, 128 + c mod 64]
      else if 55296 \<le> c \<and> c < 57344 then None
      else if c < 65536
      then Some [224 + c div 4096, 128 + c div 64 mod 64, 128 + c mod 64]
      else if c < 1114112
      then Some [240 + c div 262144, 128 + c div 4096 mod 64, 128 + c div 64 mod 64,
                 128 + c mod 64]
      else None)"

fun utf8_encode :: "pystr \<Rightarrow> nat list option" where
  "utf8_encode [] = Some []"
| "utf8_encode (c # s) =
     (case utf8_char c of
        None \<Rightarrow> None
      | Some bs \<Rightarrow> map_option (\<lambda>r. bs @ r) (utf8_encode s))"

definition cont :: "nat \<Rightarrow> bool" where
  "cont b \<longleftrightarrow> 128 \<le> b \<and> b < 192"

fun utf8_decode :: "nat list \<Rightarrow> pystr option" where
  "utf8_decode [] = Some []"
| "utf8_decode (b # bs) =
     (if b < 128 then map_option (\<lambda>r. b # r) (utf8_decode bs)
      else if 194 \<le> b \<and> b < 224
      then (case bs of
              b1 # r \<Rightarrow>
                if cont b1
                then map_option (\<lambda>r. ((b - 192) * 64 + (b1 - 128)) # r) (utf8_decode r)
                else None
            | _ \<Rightarrow> None)
      else if 224 \<le> b \<and> b < 240
      then (case bs of
              b1 # b2 # r \<Rightarrow>
                (let c = (b - 224) * 4096 + (b1 - 128) * 64 + (b2 - 128)
                 in if cont b1 \<and> cont b2 \<and> 2048 \<le> c \<and> \<not> (55296 \<le> c \<and> c < 57344)
                    then map_option (\<lambda>r. c # r) (utf8_decode r)
                    else None)
            | _ \<Rightarrow> None)
      else if 240 \<le> b \<and> b < 245
      then (case bs of
              b1 # b2 # b3 # r \<Rightarrow>
                (let c = (b - 240) * 262144 + (b1 - 128) * 4096 + (b2 - 128) * 64 + (b3 - 128)
                 in if cont b1 \<and> cont b2 \<and> cont b3 \<and> 65536 \<le> c \<and> c < 1114112
                    then map_option (\<lambda>r. c # r) (utf8_decode r)
                    else None)
            | _ \<Rightarrow> None)
      else None)"

section \<open>Concrete inputs\<close>

definition no_segments :: transcription where
  "no_segments = \<lparr>res_text = str ''hello'', res_language = str ''en'', res_segments = [],
     transcription_time = 1\<rparr>"

definition empty_fs :: fs where
  "empty_fs = \<lparr>files = Map.empty, dirs = {}, denied = {}\<rparr>"

definition failing_download :: env where
  "failing_download =
     \<lparr>yt_dlp = (\<lambda>url. None), moviepy = (\<lambda>v. AudioFailed None),
      whisper = (\<lambda>audio m l. Inl TranscriptionError)\<rparr>"

definition local_clip_fs :: fs where
  "local_clip_fs =
     \<lparr>files = [str ''my_youtube.com/clip.mp4'' \<mapsto> str ''video''],
      dirs = {str ''my_youtube.com''}, denied = {}\<rparr>"

definition clip_args :: args where
  "clip_args =
     \<lparr>video_path = str ''my_youtube.com/clip.mp4'', model = str ''medium'', language = None,
      format = str ''txt'', arg_output = None, keep_audio = False\<rparr>"

definition working_env :: env where
  "working_env =
     \<lparr>yt_dlp = (\<lambda>url. None), moviepy = (\<lambda>v. AudioWritten (str ''RIFF-wave'')),
      whisper = (\<lambda>audio m l. Inr no_segments)\<rparr>"

definition broken_extraction :: env where
  "broken_extraction =
     \<lparr>yt_dlp = (\<lambda>url. None), moviepy = (\<lambda>v. AudioFailed (Some (str ''RIFF''))),
      whisper = (\<lambda>audio m l. Inr no_segments)\<rparr>"

definition clip_fs :: fs where
  "clip_fs = \<lparr>files = [str ''clip.mp4'' \<mapsto> str ''video''], dirs = {}, denied = {}\<rparr>"

definition plain_args :: args where
  "plain_args =
     \<lparr>video_path = str ''clip.mp4'', model = str ''medium'', language = None,
      format = str ''txt'', arg_output = None, keep_audio = False\<rparr>"

definition empty_output_args :: args where
  "empty_output_args = plain_args\<lparr>arg_output := Some []\<rparr>"

definition absolute_args :: args where
  "absolute_args = plain_args\<lparr>video_path := str ''/x/a.mp4''\<rparr>"

definition input_copy_fs :: fs where
  "input_copy_fs =
     \<lparr>files = [str ''input/x/a.mp4'' \<mapsto> str ''video''],
      dirs = {str ''input'', str ''input/x'', str ''output''}, denied = {}\<rparr>"

definition input_clip_fs :: fs where
  "input_clip_fs =
     \<lparr>files = [str ''input/clip.mp4'' \<mapsto> str ''video''],
      dirs = {str ''input'', str ''output''}, denied = {}\<rparr>"

definition fresh_dirs_fs :: fs where
  "fresh_dirs_fs = \<lparr>files = Map.empty, dirs = {str ''output'', str ''input''}, denied = {}\<rparr>"

definition custom_output_args :: args where
  "custom_output_args = plain_args\<lparr>arg_output := Some (str ''out/notes.txt'')\<rparr>"

definition all_formats_args :: args where
  "all_formats_args = plain_args\<lparr>format := str ''all'', arg_output := Some (str ''out/notes.txt'')\<rparr>"

section \<open>Facts about the text of numbers and time stamps\<close>

lemma digits10_set: "set (digits10 n) \<subseteq> {48..57}"
proof (induction n rule: digits10.induct)
  case (1 n)
  show ?case
  proof (cases "n < 10")
    case True
    then show ?thesis by (subst digits10.simps) simp
  next
    case False
    have "48 + n mod 10 \<le> 57" by simp
    with False 1 show ?thesis by (subst digits10.simps) auto
  qed
qed

lemma digits10_nonempty: "digits10 n \<noteq> []"
  by (subst digits10.simps) simp

lemma digits10_no_newline: "10 \<notin> set (digits10 n)"
  using digits10_set [of n] by auto

lemma str_of_int_no_newline: "10 \<notin> set (str_of_int i)"
  by (simp add: str_of_int_def digits10_no_newline)

lemma format_0d_no_newline: "10 \<notin> set (format_0d w i)"
  by (simp add: format_0d_def zfill_def digits10_no_newline)

lemma format_srt_timestamp_no_newline: "10 \<notin> set (format_srt_timestamp x)"
  by (simp add: format_srt_timestamp_def Let_def format_0d_no_newline str_def)

lemma range_line_no_newline: "10 \<notin> set (range_line seg)"
  by (simp add: range_line_def format_srt_timestamp_no_newline str_def)

lemma first_line_append: "10 \<notin> set l \<Longrightarrow> first_line (l @ 10 # r) = l"
  unfolding first_line_def by (induction l) auto

lemma format_names:
  "str ''srt'' \<noteq> str ''txt''" "str ''srt'' \<noteq> str ''json''"
  "str ''vtt'' \<noteq> str ''txt''" "str ''vtt'' \<noteq> str ''json''" "str ''vtt'' \<noteq> str ''srt''"
  by (simp_all add: str_def)

lemma srt_loop_append:
  "srt_loop (int i) segs f = f @ concat (map (\<lambda>(j, seg). srt_cue j seg) (enumerate i segs))"
proof (induction segs arbitrary: i f)
  case Nil
  show ?case by simp
next
  case (Cons seg rest)
  have "srt_loop (int i) (seg # rest) f = srt_loop (int (Suc i)) rest (f @ srt_cue i seg)"
    by (simp add: Let_def file_write_def srt_cue_def range_line_def add.commute)
  also have "\<dots> = (f @ srt_cue i seg) @
      concat (map (\<lambda>(j, seg). srt_cue j seg) (enumerate (Suc i) rest))"
    by (rule Cons.IH)
  finally show ?case by simp
qed

lemma map_enumerate_nth:
  "map (\<lambda>(j, x). g j x) (enumerate n xs) = map (\<lambda>k. g (n + k) (xs ! k)) [0..<length xs]"
  by (rule nth_equalityI) (simp_all add: nth_enumerate_eq)

lemma vtt_loop_append: "vtt_loop segs f = f @ concat (map vtt_cue segs)"
  by (induction segs arbitrary: f) (simp_all add: Let_def file_write_def vtt_cue_def range_line_def)

text \<open>
  Claim C1.  For a result with \<open>N\<close> segments the SRT file holds, for each segment in the
  given order, the index line, the line
  \<^verbatim>\<open>format_srt_timestamp(start) --> format_srt_timestamp(end)\<close>, the stripped text and a
  blank line; the index lines are the numbers \<open>1, \<dots>, N\<close> in sequence, whatever the
  times of the segments are.
\<close>

theorem srt_rendering_contiguous:
  "save_transcription result path (str ''srt'') s =
     with_open_w path (\<lambda>f. srt_rendering (res_segments result)) s
   \<and> srt_rendering segs = concat (map (\<lambda>k. srt_cue (Suc k) (segs ! k)) [0..<length segs])
   \<and> map (\<lambda>k. first_line (srt_cue (Suc k) (segs ! k))) [0..<length segs]
       = map (\<lambda>i. str_of_int (int i)) [1..<Suc (length segs)]
   \<and> srt_cue i seg =
       str_of_int (int i) @ [10] @
       format_srt_timestamp (seg_start seg) @ str '' --> '' @ format_srt_timestamp (seg_end seg) @ [10] @
       strip (seg_text seg) @ [10] @ [10]"
proof -
  have a: "srt_loop 1 (res_segments result) [] = srt_rendering (res_segments result)"
    using srt_loop_append [of 1 "res_segments result" "[]"] by (simp add: srt_rendering_def)
  have b: "save_transcription result path (str ''srt'') s =
      with_open_w path (\<lambda>f. srt_rendering (res_segments result)) s"
    unfolding save_transcription_def with_open_w_def a
    by (simp add: format_names)
  have c: "srt_rendering segs = concat (map (\<lambda>k. srt_cue (Suc k) (segs ! k)) [0..<length segs])"
    unfolding srt_rendering_def map_enumerate_nth by simp
  have d: "first_line (srt_cue i sg) = str_of_int (int i)" for i sg
    unfolding srt_cue_def using first_line_append [OF str_of_int_no_newline] by simp
  have e: "map (\<lambda>k. first_line (srt_cue (Suc k) (segs ! k))) [0..<length segs]
       = map (\<lambda>i. str_of_int (int i)) [1..<Suc (length segs)]"
    unfolding d by (rule nth_equalityI) (simp_all del: upt_Suc)
  show ?thesis using b c e by (simp add: srt_cue_def range_line_def)
qed

lemma gt_in_range_line: "62 \<in> set (range_line seg)"
  by (simp add: range_line_def str_def)

lemma digits_not_gt: "62 \<notin> set (digits10 n)"
  using digits10_set [of n] by auto

text \<open>
  Claim C7.  The WebVTT file begins with the line \<^verbatim>\<open>WEBVTT\<close> and a blank line; then, for
  each segment in order, come the time range line in the format of the SRT file, the
  stripped text and a blank line.  A cue starts with its time range line, which is no
  number: the cue of the SRT file is this cue behind an index line.
\<close>

theorem vtt_rendering_no_index:
  "save_transcription result path (str ''vtt'') s =
     with_open_w path (\<lambda>f. vtt_rendering (res_segments result)) s
   \<and> vtt_rendering segs = str ''WEBVTT'' @ [10] @ [10] @ concat (map vtt_cue segs)
   \<and> vtt_cue seg =
       format_srt_timestamp (seg_start seg) @ str '' --> '' @ format_srt_timestamp (seg_end seg) @ [10] @
       strip (seg_text seg) @ [10] @ [10]
   \<and> first_line (vtt_cue seg) = range_line seg
   \<and> first_line (vtt_cue seg) \<noteq> digits10 n
   \<and> srt_cue i seg = str_of_int (int i) @ [10] @ vtt_cue seg"
proof -
  have a: "vtt_loop (res_segments result) (file_write [] (str ''WEBVTT'' @ [10, 10]))
      = vtt_rendering (res_segments result)"
    by (simp add: vtt_loop_append vtt_rendering_def file_write_def)
  have b: "save_transcription result path (str ''vtt'') s =
      with_open_w path (\<lambda>f. vtt_rendering (res_segments result)) s"
    unfolding save_transcription_def with_open_w_def a
    by (simp add: format_names)
  have c: "first_line (vtt_cue seg) = range_line seg"
    unfolding vtt_cue_def using first_line_append [OF range_line_no_newline] by simp
  have d: "range_line seg \<noteq> digits10 n"
    using gt_in_range_line [of seg] digits_not_gt [of n] by auto
  show ?thesis
    using b c d by (simp add: vtt_rendering_def vtt_cue_def srt_cue_def range_line_def)
qed

text \<open>
  Claim C3, as stated, fails: for a format outside the four, \<^verbatim>\<open>save_transcription\<close> reaches
  the end of its \<^verbatim>\<open>if\<close>/\<^verbatim>\<open>elif\<close> chain and returns without an error, having written
  nothing.
\<close>

theorem unknown_format_silent:
  "save_transcription no_segments (str ''out.xml'') (str ''xml'') empty_fs = Inr empty_fs"
  by (simp add: save_transcription_def str_def)

text \<open>
  Claim C3, amended.  For every format selector outside \<^verbatim>\<open>txt\<close>, \<^verbatim>\<open>json\<close>, \<^verbatim>\<open>srt\<close>
  and \<^verbatim>\<open>vtt\<close>, \<^verbatim>\<open>save_transcription\<close> returns normally and leaves the file system as it
  was.
\<close>

theorem unknown_format_noop:
  "fmt \<notin> {str ''txt'', str ''json'', str ''srt'', str ''vtt''} \<Longrightarrow>
   save_transcription result path fmt s = Inr s"
  by (simp add: save_transcription_def)

theorem unknown_format_noop_witness:
  "str ''all'' \<notin> {str ''txt'', str ''json'', str ''srt'', str ''vtt''} \<and>
   save_transcription no_segments (str ''out.txt'') (str ''all'') empty_fs = Inr empty_fs"
proof -
  have h: "str ''all'' \<notin> {str ''txt'', str ''json'', str ''srt'', str ''vtt''}"
    by (simp add: str_def)
  show ?thesis using h unknown_format_noop [OF h] by simp
qed

section \<open>The URL pattern\<close>

lemma in_tails: "t \<in> set (tails (p @ t))"
proof (induction p)
  case Nil
  show ?case by (cases t) simp_all
next
  case (Cons x p)
  then show ?case by simp
qed

lemma re_search_at: "u \<in> set (after r t) \<Longrightarrow> re_search r (p @ t)"
proof -
  assume "u \<in> set (after r t)"
  then have "after r t \<noteq> []" by auto
  with in_tails [of t p] show ?thesis
    unfolding re_search_def list_ex_iff by blast
qed

lemma after_Lit: "s \<in> set (after (Lit w) (w @ s))"
  by simp

lemma after_Cat: "t \<in> set (after a s) \<Longrightarrow> u \<in> set (after b t) \<Longrightarrow> u \<in> set (after (Cat a b) s)"
  by auto

lemma after_Alt1: "t \<in> set (after a s) \<Longrightarrow> t \<in> set (after (Alt a b) s)"
  by simp

lemma after_Alt2: "t \<in> set (after b s) \<Longrightarrow> t \<in> set (after (Alt a b) s)"
  by simp

lemma after_Opt_skip: "s \<in> set (after (Opt a) s)"
  by simp

lemma after_Opt_take: "t \<in> set (after a s) \<Longrightarrow> t \<in> set (after (Opt a) s)"
  by simp

lemma str_append: "str (a @ b) = str a @ str b"
  by (simp add: str_def)

lemma after_scheme:
  assumes "scheme \<in> {[], str ''http://'', str ''https://''}"
  shows "s \<in> set (after (Opt (Cat (Lit (str ''http'')) (Cat (Opt (Lit (str ''s''))) (Lit (str ''://''))))) (scheme @ s))"
proof -
  consider "scheme = []" | "scheme = str ''http'' @ str ''://''" | "scheme = str ''http'' @ str ''s'' @ str ''://''"
    using assms by (auto simp: str_def)
  then show ?thesis
  proof cases
    case 1
    then show ?thesis by (simp del: after.simps add: after_Opt_skip)
  next
    case 2
    have "s \<in> set (after (Cat (Opt (Lit (str ''s''))) (Lit (str ''://''))) (str ''://'' @ s))"
      by (rule after_Cat [OF after_Opt_skip after_Lit])
    then have "s \<in> set (after (Cat (Lit (str ''http'')) (Cat (Opt (Lit (str ''s''))) (Lit (str ''://'')))) (str ''http'' @ str ''://'' @ s))"
      by (rule after_Cat [OF after_Lit])
    then show ?thesis unfolding 2 append_assoc by (rule after_Opt_take)
  next
    case 3
    have "s \<in> set (after (Cat (Opt (Lit (str ''s''))) (Lit (str ''://''))) (str ''s'' @ str ''://'' @ s))"
      by (rule after_Cat [OF after_Opt_take [OF after_Lit] after_Lit])
    then have "s \<in> set (after (Cat (Lit (str ''http'')) (Cat (Opt (Lit (str ''s''))) (Lit (str ''://'')))) (str ''http'' @ str ''s'' @ str ''://'' @ s))"
      by (rule after_Cat [OF after_Lit])
    then show ?thesis unfolding 3 append_assoc by (rule after_Opt_take)
  qed
qed

lemma after_www:
  assumes "www \<in> {[], str ''www.''}"
  shows "s \<in> set (after (Opt (Cat (Lit (str ''www'')) (Lit (str ''.'')))) (www @ s))"
proof -
  consider "www = []" | "www = str ''www'' @ str ''.''"
    using assms by (auto simp: str_def)
  then show ?thesis
  proof cases
    case 1
    then show ?thesis by (simp del: after.simps add: after_Opt_skip)
  next
    case 2
    have "s \<in> set (after (Cat (Lit (str ''www'')) (Lit (str ''.''))) (str ''www'' @ str ''.'' @ s))"
      by (rule after_Cat [OF after_Lit after_Lit])
    then show ?thesis unfolding 2 append_assoc by (rule after_Opt_take)
  qed
qed

lemma after_host:
  assumes "host \<in> {str ''youtube'', str ''youtu'', str ''youtube-nocookie''}"
  shows "s \<in> set (after (Alt (Lit (str ''youtube'')) (Alt (Lit (str ''youtu'')) (Lit (str ''youtube-nocookie'')))) (host @ s))"
proof -
  consider "host = str ''youtube''" | "host = str ''youtu''" | "host = str ''youtube-nocookie''"
    using assms by auto
  then show ?thesis
  proof cases
    case 1
    show ?thesis unfolding 1 by (rule after_Alt1 [OF after_Lit])
  next
    case 2
    show ?thesis unfolding 2 by (rule after_Alt2 [OF after_Alt1 [OF after_Lit]])
  next
    case 3
    show ?thesis unfolding 3 by (rule after_Alt2 [OF after_Alt2 [OF after_Lit]])
  qed
qed

lemma after_tld:
  assumes "tld \<in> {str ''com'', str ''be''}"
  shows "s \<in> set (after (Alt (Lit (str ''com'')) (Lit (str ''be''))) (tld @ s))"
proof -
  consider "tld = str ''com''" | "tld = str ''be''"
    using assms by auto
  then show ?thesis
  proof cases
    case 1
    show ?thesis unfolding 1 by (rule after_Alt1 [OF after_Lit])
  next
    case 2
    show ?thesis unfolding 2 by (rule after_Alt2 [OF after_Lit])
  qed
qed

lemma after_youtube_pattern:
  assumes "scheme \<in> {[], str ''http://'', str ''https://''}"
    and "www \<in> {[], str ''www.''}"
    and "host \<in> {str ''youtube'', str ''youtu'', str ''youtube-nocookie''}"
    and "tld \<in> {str ''com'', str ''be''}"
  shows "post \<in> set (after youtube_pattern
            (scheme @ www @ host @ str ''.'' @ tld @ str ''/'' @ post))"
  unfolding youtube_pattern_def
  by (intro after_Cat [OF after_scheme [OF assms(1)]] after_Cat [OF after_www [OF assms(2)]]
        after_Cat [OF after_host [OF assms(3)]] after_Cat [OF after_Lit]
        after_Cat [OF after_tld [OF assms(4)]] after_Lit)

text \<open>
  Claim C9.  \<^verbatim>\<open>is_youtube_url\<close> holds of every string that contains, anywhere, an
  optional \<^verbatim>\<open>http://\<close> or \<^verbatim>\<open>https://\<close>, an optional \<^verbatim>\<open>www.\<close>, one of the host names
  \<^verbatim>\<open>youtube\<close>, \<^verbatim>\<open>youtu\<close>, \<^verbatim>\<open>youtube-nocookie\<close>, a dot, \<^verbatim>\<open>com\<close> or \<^verbatim>\<open>be\<close>, and a
  slash.  An argument of this form is handed to the downloader, whose answer alone decides
  the resolution: the file system is not consulted, so a local path such as
  \<^verbatim>\<open>my_youtube.com/clip.mp4\<close> is not looked up.
\<close>

theorem youtube_substring_is_url:
  assumes "scheme \<in> {[], str ''http://'', str ''https://''}"
    and "www \<in> {[], str ''www.''}"
    and "host \<in> {str ''youtube'', str ''youtu'', str ''youtube-nocookie''}"
    and "tld \<in> {str ''com'', str ''be''}"
    and "video_path a = pre @ scheme @ www @ host @ str ''.'' @ tld @ str ''/'' @ post"
  shows "is_youtube_url (pre @ scheme @ www @ host @ str ''.'' @ tld @ str ''/'' @ post) \<and>
         fst (resolve_input e a s) =
           (case yt_dlp e (video_path a) of
              None \<Rightarrow> Inl 1
            | Some (filename, content) \<Rightarrow> Inr (parse_path filename))"
proof -
  have url: "is_youtube_url (pre @ scheme @ www @ host @ str ''.'' @ tld @ str ''/'' @ post)"
    unfolding is_youtube_url_def
    by (rule re_search_at [OF after_youtube_pattern [OF assms(1-4)]])
  then have "is_youtube_url (video_path a)" by (simp add: assms(5))
  then have "fst (resolve_input e a s) =
           (case yt_dlp e (video_path a) of
              None \<Rightarrow> Inl 1
            | Some (filename, content) \<Rightarrow> Inr (parse_path filename))"
    by (simp add: resolve_input_def download_youtube_video_def split: option.splits)
  with url show ?thesis by simp
qed

lemma clip_name:
  "str ''my_'' @ [] @ [] @ str ''youtube'' @ str ''.'' @ str ''com'' @ str ''/'' @ str ''clip.mp4''
     = str ''my_youtube.com/clip.mp4''"
  by (simp add: str_def)

theorem youtube_substring_is_url_witness:
  "is_youtube_url (str ''my_youtube.com/clip.mp4'') \<and>
   exists local_clip_fs (parse_path (video_path clip_args)) \<and>
   fst (resolve_input failing_download clip_args local_clip_fs) = Inl 1"
proof -
  have vp: "video_path clip_args =
      str ''my_'' @ [] @ [] @ str ''youtube'' @ str ''.'' @ str ''com'' @ str ''/'' @ str ''clip.mp4''"
    unfolding clip_name by (simp add: clip_args_def)
  have ex: "exists local_clip_fs (parse_path (video_path clip_args))"
    by (simp add: exists_def path_exists_def local_clip_fs_def clip_args_def parse_path_def
        path_str_def str_def)
  show ?thesis
    using youtube_substring_is_url [OF _ _ _ _ vp, of failing_download local_clip_fs] ex
    unfolding clip_name
    by (simp add: failing_download_def)
qed

section \<open>Paths and the orchestrator\<close>

lemma split_on_no_sep: "c \<notin> set w \<Longrightarrow> split_on c w = [w]"
  by (induction w) auto

lemma split_on_sep: "c \<notin> set w \<Longrightarrow> split_on c (w @ c # s) = w # split_on c s"
  by (induction w) auto

lemma input_dir_eq: "input_dir = Path [] [str ''input'']"
  by (simp add: input_dir_def parse_path_def str_def)

lemma output_dir_eq: "output_dir = Path [] [str ''output'']"
  by (simp add: output_dir_def parse_path_def str_def)

lemma parts_under_input:
  "parts (parse_path (str ''input/'' @ p)) = str ''input'' # parts (parse_path p)"
proof -
  have "str ''input/'' @ p = str ''input'' @ 47 # p" by (simp add: str_def)
  moreover have "47 \<notin> set (str ''input'')" by (simp add: str_def)
  ultimately have "split_on 47 (str ''input/'' @ p) = str ''input'' # split_on 47 p"
    using split_on_sep [of 47 "str ''input''" p] by simp
  then show ?thesis by (simp add: parse_path_def str_def)
qed

lemma root_under_input: "root (parse_path (str ''input/'' @ p)) = []"
  by (simp add: parse_path_def str_def)

lemma join_input_relative:
  "root (parse_path p) = [] \<Longrightarrow> joinpath input_dir p = parse_path (str ''input/'' @ p)"
  using parts_under_input [of p] root_under_input [of p]
  by (cases "parse_path (str ''input/'' @ p)") (simp add: joinpath_def Let_def input_dir_eq)

lemma join_input_absolute:
  "root (parse_path p) \<noteq> [] \<Longrightarrow> joinpath input_dir p = parse_path p"
  by (simp add: joinpath_def Let_def)

lemma setup_directories_dirs:
  assumes "setup_directories s0 = (None, s)"
  shows "dirs s = insert (str ''output'') (insert (str ''input'') (dirs s0))"
    and "files s = files s0"
  using assms
  by (auto simp: setup_directories_def mkdir_exist_ok_def input_dir_eq output_dir_eq path_str_def
      split: sum.splits if_splits)

text \<open>
  Claim C10, amended.  For an argument that is no YouTube URL and does not exist as given,
  the orchestrator tries \<^verbatim>\<open>input_dir / video_path\<close>: the path \<^verbatim>\<open>input/<video_path>\<close> when
  the argument is relative, the argument itself once more when it is absolute.  It uses
  that file when it exists, and exits with status 1 exactly when it is missing too; then
  nothing but the \<^verbatim>\<open>input\<close> and \<^verbatim>\<open>output\<close> directories has been created.
\<close>

theorem input_fallback:
  assumes "\<not> is_youtube_url (video_path a)"
    and "\<not> exists s (parse_path (video_path a))"
    and "setup_directories s0 = (None, s)"
  shows "joinpath input_dir (video_path a) =
           (if root (parse_path (video_path a)) = []
            then parse_path (str ''input/'' @ video_path a)
            else parse_path (video_path a))
       \<and> resolve_input e a s =
           (if exists s (joinpath input_dir (video_path a))
            then (Inr (joinpath input_dir (video_path a)), s)
            else (Inl 1, s))
       \<and> (fst (resolve_input e a s) = Inl 1 \<longleftrightarrow> \<not> exists s (joinpath input_dir (video_path a)))
       \<and> (\<not> exists s (joinpath input_dir (video_path a)) \<longrightarrow>
            main e a s0 = (Exit 1, s) \<and> files s = files s0 \<and>
            dirs s = insert (str ''output'') (insert (str ''input'') (dirs s0)))"
proof -
  have j: "joinpath input_dir (video_path a) =
           (if root (parse_path (video_path a)) = []
            then parse_path (str ''input/'' @ video_path a)
            else parse_path (video_path a))"
    by (simp add: join_input_relative join_input_absolute)
  have r: "resolve_input e a s =
           (if exists s (joinpath input_dir (video_path a))
            then (Inr (joinpath input_dir (video_path a)), s)
            else (Inl 1, s))"
    using assms(1,2) by (simp add: resolve_input_def Let_def)
  have m: "main e a s0 = (Exit 1, s)" if "\<not> exists s (joinpath input_dir (video_path a))"
    using that by (simp add: main_def assms(3) r)
  show ?thesis
    using j r m setup_directories_dirs [OF assms(3)] by simp
qed

theorem input_fallback_witness:
  "(\<not> is_youtube_url (video_path plain_args)
    \<and> \<not> exists input_clip_fs (parse_path (video_path plain_args))
    \<and> setup_directories input_clip_fs = (None, input_clip_fs)
    \<and> resolve_input working_env plain_args input_clip_fs =
        (Inr (parse_path (str ''input/clip.mp4'')), input_clip_fs))
   \<and> (\<not> exists fresh_dirs_fs (parse_path (video_path plain_args))
    \<and> setup_directories empty_fs = (None, fresh_dirs_fs)
    \<and> \<not> exists fresh_dirs_fs (joinpath input_dir (video_path plain_args))
    \<and> main working_env plain_args empty_fs = (Exit 1, fresh_dirs_fs))"
proof -
  have u: "\<not> is_youtube_url (video_path plain_args)" by code_simp
  have n1: "\<not> exists input_clip_fs (parse_path (video_path plain_args))" by code_simp
  have n2: "\<not> exists fresh_dirs_fs (parse_path (video_path plain_args))" by code_simp
  have n3: "\<not> exists fresh_dirs_fs (joinpath input_dir (video_path plain_args))" by code_simp
  have e1: "exists input_clip_fs (joinpath input_dir (video_path plain_args))" by code_simp
  have r1: "root (parse_path (video_path plain_args)) = []" by code_simp
  have v: "str ''input/'' @ video_path plain_args = str ''input/clip.mp4''"
    by (simp add: plain_args_def str_def)
  have s1: "setup_directories input_clip_fs = (None, input_clip_fs)"
    by (simp add: setup_directories_def mkdir_exist_ok_def input_dir_eq output_dir_eq
        path_str_def input_clip_fs_def)
  have s2: "setup_directories empty_fs = (None, fresh_dirs_fs)"
    by (simp add: setup_directories_def mkdir_exist_ok_def input_dir_eq output_dir_eq
        path_str_def empty_fs_def fresh_dirs_fs_def str_def)
  show ?thesis
    using input_fallback [OF u n1 s1, of working_env] input_fallback [OF u n2 s2, of working_env]
      u n1 n2 n3 e1 r1 s1 s2
    by (simp add: v)
qed

lemma root_no_slash: "47 \<notin> set s \<Longrightarrow> root (parse_path s) = []"
  by (cases s) (auto simp: parse_path_def str_def)

lemma parts_no_slash:
  "47 \<notin> set s \<Longrightarrow> parts (parse_path s) = (if s = [] \<or> s = str ''.'' then [] else [s])"
  by (simp add: parse_path_def split_on_no_sep)

lemma parse_default_path:
  assumes "47 \<notin> set stem" and "47 \<notin> set fmt"
  shows "parse_path (default_path stem fmt) =
         joinpath (joinpath output_dir stem) (stem @ str ''_transcription.'' @ fmt)"
proof -
  let ?name = "stem @ str ''_transcription.'' @ fmt"
  have name: "47 \<notin> set ?name" "?name \<noteq> []" "?name \<noteq> str ''.''"
    using assms by (auto simp: str_def append_eq_Cons_conv)
  have out: "47 \<notin> set (str ''output'')" by (simp add: str_def)
  have d: "default_path stem fmt = str ''output'' @ 47 # stem @ 47 # ?name"
    by (simp add: default_path_def str_def)
  have "split_on 47 (default_path stem fmt) = [str ''output'', stem, ?name]"
    unfolding d using split_on_sep [OF out] split_on_sep [OF assms(1)] split_on_no_sep [OF name(1)]
    by simp
  then have p: "parts (parse_path (default_path stem fmt)) =
      str ''output'' # (if stem = [] \<or> stem = str ''.'' then [] else [stem]) @ [?name]"
    using name by (simp add: parse_path_def str_def)
  have r: "root (parse_path (default_path stem fmt)) = []"
    by (simp add: parse_path_def d str_def)
  have j: "joinpath (joinpath output_dir stem) ?name =
      Path [] (str ''output'' # (if stem = [] \<or> stem = str ''.'' then [] else [stem]) @ [?name])"
    using root_no_slash [OF assms(1)] parts_no_slash [OF assms(1)]
      root_no_slash [OF name(1)] parts_no_slash [OF name(1)] name
    by (simp add: joinpath_def Let_def output_dir_eq)
  show ?thesis
    using p r j by (cases "parse_path (default_path stem fmt)") simp
qed

lemma path_str_default:
  assumes "47 \<notin> set stem" and "47 \<notin> set fmt" and "stem \<noteq> []" and "stem \<noteq> str ''.''"
  shows "path_str (parse_path (default_path stem fmt)) = default_path stem fmt"
proof -
  have "parse_path (default_path stem fmt) =
      Path [] [str ''output'', stem, stem @ str ''_transcription.'' @ fmt]"
    unfolding parse_default_path [OF assms(1,2)]
    using root_no_slash [OF assms(1)] parts_no_slash [OF assms(1)] assms
      root_no_slash [of "stem @ str ''_transcription.'' @ fmt"]
      parts_no_slash [of "stem @ str ''_transcription.'' @ fmt"]
    by (simp add: joinpath_def Let_def output_dir_eq str_def append_eq_Cons_conv)
  then show ?thesis
    by (simp add: path_str_def default_path_def str_def)
qed

lemma save_loop_write_all:
  "save_loop a formats dir stem result fmts s =
     write_all result (map (\<lambda>fmt. (path_str (choose_output_path a formats dir stem fmt), fmt)) fmts) s"
  by (induction fmts arbitrary: s) (simp_all add: Let_def split: sum.splits)

lemma formats_no_slash:
  "valid_args a \<Longrightarrow> fmt \<in> set (formats_of a) \<Longrightarrow> 47 \<notin> set fmt"
  by (auto simp: valid_args_def formats_of_def str_def split: if_splits)

lemma choose_output_path_destination:
  assumes "47 \<notin> set stem" and "47 \<notin> set fmt"
  shows "path_str (choose_output_path a (formats_of a) (joinpath output_dir stem) stem fmt)
         = destination a stem fmt"
  using parse_default_path [OF assms]
  by (auto simp: choose_output_path_def destination_def truthy_def formats_of_def
      split: option.splits)

text \<open>
  Claim C8, amended.  In every run each rendering is written to its destination: the
  custom \<^verbatim>\<open>--output\<close> path if and only if one was given, is not the empty string, and
  exactly one format is produced; otherwise the default path
  \<^verbatim>\<open>output/<video-stem>/<video-stem>_transcription.<ext>\<close> of its format.
\<close>

theorem output_destination:
  assumes "valid_args a" and "47 \<notin> set stem"
  shows "try_body e a (joinpath output_dir stem) stem audio s =
           (case transcribe_audio e (path_str audio) (model a) (language a) of
              Inl err \<Rightarrow> (Some err, s)
            | Inr result \<Rightarrow>
                write_all result (map (\<lambda>fmt. (destination a stem fmt, fmt)) (formats_of a)) s)
       \<and> destination a stem fmt =
           (if (\<exists>p. arg_output a = Some p \<and> p \<noteq> []) \<and> length (formats_of a) = 1
            then path_str (parse_path (the (arg_output a)))
            else path_str (parse_path (default_path stem fmt)))
       \<and> (stem \<noteq> [] \<and> stem \<noteq> str ''.'' \<and> fmt \<in> set (formats_of a) \<longrightarrow>
            path_str (parse_path (default_path stem fmt)) =
              str ''output/'' @ stem @ str ''/'' @ stem @ str ''_transcription.'' @ fmt)"
proof -
  have m: "map (\<lambda>fmt. (path_str (choose_output_path a (formats_of a) (joinpath output_dir stem) stem fmt), fmt)) (formats_of a)
      = map (\<lambda>fmt. (destination a stem fmt, fmt)) (formats_of a)"
    using choose_output_path_destination [OF assms(2) formats_no_slash [OF assms(1)]]
    by simp
  have a: "try_body e a (joinpath output_dir stem) stem audio s =
           (case transcribe_audio e (path_str audio) (model a) (language a) of
              Inl err \<Rightarrow> (Some err, s)
            | Inr result \<Rightarrow>
                write_all result (map (\<lambda>fmt. (destination a stem fmt, fmt)) (formats_of a)) s)"
    by (simp only: try_body_def Let_def save_loop_write_all m)
  have b: "destination a stem fmt =
           (if (\<exists>p. arg_output a = Some p \<and> p \<noteq> []) \<and> length (formats_of a) = 1
            then path_str (parse_path (the (arg_output a)))
            else path_str (parse_path (default_path stem fmt)))"
    by (auto simp: destination_def formats_of_def split: option.splits)
  have c: "path_str (parse_path (default_path stem fmt)) =
              str ''output/'' @ stem @ str ''/'' @ stem @ str ''_transcription.'' @ fmt"
    if "stem \<noteq> []" "stem \<noteq> str ''.''" "fmt \<in> set (formats_of a)"
    using path_str_default [OF assms(2) formats_no_slash [OF assms(1) that(3)] that(1,2)]
    by (simp add: default_path_def)
  show ?thesis using a b c by blast
qed

lemma split_on_nonempty: "split_on c s \<noteq> []"
  by (induction s) (auto split: list.splits)

lemma split_on_parts: "w \<in> set (split_on c s) \<Longrightarrow> c \<notin> set w"
proof (induction s arbitrary: w)
  case Nil
  then show ?case by simp
next
  case (Cons x s)
  obtain v vs where v: "split_on c s = v # vs"
    using split_on_nonempty [of c s] by (cases "split_on c s") auto
  with Cons show ?case by (auto split: if_splits)
qed

lemma parse_path_parts: "w \<in> set (parts (parse_path s)) \<Longrightarrow> 47 \<notin> set w"
  using split_on_parts [of w 47 s] by (auto simp: parse_path_def)

lemma joinpath_parts:
  "(\<And>w. w \<in> set (parts p) \<Longrightarrow> 47 \<notin> set w) \<Longrightarrow> w \<in> set (parts (joinpath p s)) \<Longrightarrow> 47 \<notin> set w"
  using parse_path_parts [of w s] by (auto simp: joinpath_def Let_def split: if_splits)

lemma path_stem_no_slash:
  assumes "\<And>w. w \<in> set (parts p) \<Longrightarrow> 47 \<notin> set w"
  shows "47 \<notin> set (path_stem p)"
proof -
  have "47 \<notin> set (path_name p)"
    using assms [of "last (parts p)"] by (auto simp: path_name_def)
  then show ?thesis
    by (auto simp: path_stem_def Let_def dest: in_set_takeD)
qed

lemma resolve_input_stem:
  assumes "resolve_input e a s = (Inr video, s')"
  shows "47 \<notin> set (path_stem video)"
proof -
  have "video = parse_path (video_path a) \<or> video = joinpath input_dir (video_path a)
      \<or> (\<exists>f. video = parse_path f)"
    using assms
    by (auto simp: resolve_input_def Let_def download_youtube_video_def
        split: if_splits option.splits prod.splits)
  moreover have "w \<in> set (parts input_dir) \<Longrightarrow> 47 \<notin> set w" for w
    by (simp add: input_dir_def parse_path_parts)
  ultimately show ?thesis
    using path_stem_no_slash [of video] parse_path_parts joinpath_parts [of input_dir]
    by metis
qed

text \<open>
  Claim C8, as stated, fails when the custom path was given as the empty string: with one
  format produced, the rendering goes to the default path.
\<close>

theorem empty_output_ignored:
  "arg_output empty_output_args = Some [] \<and> length (formats_of empty_output_args) = 1 \<and>
   fst (main working_env empty_output_args clip_fs) = Returned \<and>
   files (snd (main working_env empty_output_args clip_fs))
     (str ''output/clip/clip_transcription.txt'') = Some (str ''hello'') \<and>
   files (snd (main working_env empty_output_args clip_fs)) (path_str (parse_path [])) = None"
  by code_simp

theorem output_destination_witness:
  "(valid_args custom_output_args \<and> 47 \<notin> set (str ''clip'') \<and>
    destination custom_output_args (str ''clip'') (str ''txt'') = str ''out/notes.txt'') \<and>
   (valid_args all_formats_args \<and> str ''clip'' \<noteq> [] \<and> str ''clip'' \<noteq> str ''.'' \<and>
    str ''srt'' \<in> set (formats_of all_formats_args) \<and>
    destination all_formats_args (str ''clip'') (str ''srt'') =
      str ''output/clip/clip_transcription.srt'')"
proof -
  have v1: "valid_args custom_output_args" by code_simp
  have v2: "valid_args all_formats_args" by code_simp
  have st: "47 \<notin> set (str ''clip'')" "str ''clip'' \<noteq> []" "str ''clip'' \<noteq> str ''.''"
    by (simp_all add: str_def)
  have f1: "(\<exists>p. arg_output custom_output_args = Some p \<and> p \<noteq> []) \<and>
      length (formats_of custom_output_args) = 1"
    by (simp add: custom_output_args_def plain_args_def formats_of_def str_def)
  have o1: "path_str (parse_path (the (arg_output custom_output_args))) = str ''out/notes.txt''"
    by code_simp
  have f2: "length (formats_of all_formats_args) \<noteq> 1" "str ''srt'' \<in> set (formats_of all_formats_args)"
    by (simp_all add: all_formats_args_def plain_args_def formats_of_def)
  have j: "str ''output/'' @ str ''clip'' @ str ''/'' @ str ''clip'' @ str ''_transcription.'' @ str ''srt''
      = str ''output/clip/clip_transcription.srt''"
    by (simp add: str_def)
  show ?thesis
    using output_destination [OF v1 st(1), of working_env "parse_path []" empty_fs "str ''txt''"]
      output_destination [OF v2 st(1), of working_env "parse_path []" empty_fs "str ''srt''"]
      v1 v2 st f1 f2 o1 j
    by simp
qed

text \<open>
  Claim C5 at a failing extraction that has already written part of the waveform:
  \<^verbatim>\<open>sys.exit(1)\<close> is reached before the \<^verbatim>\<open>try\<close> statement, and the file stays although
  \<^verbatim>\<open>--keep-audio\<close> was not given.
\<close>

theorem audio_left_after_failed_extraction:
  "\<not> keep_audio plain_args \<and>
   fst (main broken_extraction plain_args clip_fs) = Exit 1 \<and>
   files (snd (main broken_extraction plain_args clip_fs)) (str ''output/clip/clip_audio.wav'')
     = Some (str ''RIFF'')"
  by code_simp

text \<open>
  Claim C10, as stated, fails for an absolute argument: \<^verbatim>\<open>/x/a.mp4\<close> does not exist,
  \<^verbatim>\<open>input//x/a.mp4\<close> does, and the run exits with status 1.
\<close>

theorem absolute_path_no_fallback:
  "\<not> is_youtube_url (video_path absolute_args) \<and>
   \<not> exists input_copy_fs (parse_path (video_path absolute_args)) \<and>
   exists input_copy_fs (parse_path (str ''input/'' @ video_path absolute_args)) \<and>
   fst (main working_env absolute_args input_copy_fs) = Exit 1"
  by code_simp

text \<open>
  Claim C4 at one day: \<^verbatim>\<open>str(timedelta(seconds=86400))\<close> is \<^verbatim>\<open>1 day, 0:00:00\<close>, which is not
  of the form \<^verbatim>\<open>H:MM:SS\<close>; the two values the claim names are rendered as it says.
\<close>

theorem format_timestamp_one_day:
  "format_timestamp 86400 = Inr (str ''1 day, 0:00:00'') \<and>
   format_timestamp 0 = Inr (str ''0:00:00'') \<and>
   format_timestamp 125 = Inr (str ''0:02:05'')"
  by code_simp

section \<open>Binary64 rounding and the subtitle time stamp\<close>

lemma powi_neg: "0 \<le> n \<Longrightarrow> (2::rat) powi (- n) = 1 / 2 ^ nat n"
  by (cases "n = 0") (simp_all add: power_int_def field_simps)

lemma bexp_lower:
  assumes "0 < y"
  shows "2 powi (bexp y) \<le> y"
proof (cases "1 \<le> y")
  case True
  define n where "n = \<lfloor>y\<rfloor>"
  have n: "1 \<le> n" using True by (simp add: n_def)
  then have b: "1 \<le> bitlen n" by (simp add: bitlen_alt_def)
  have "(2::int) ^ nat (bitlen n - 1) \<le> n" using bitlen_bounds [of n] n by simp
  then have "(of_int ((2::int) ^ nat (bitlen n - 1)) :: rat) \<le> of_int n"
    by (simp only: of_int_le_iff)
  also have "\<dots> \<le> y" by (simp add: n_def)
  finally have "(2::rat) ^ nat (bitlen n - 1) \<le> y" by simp
  moreover have "bexp y = bitlen n - 1" using True by (simp add: bexp_def n_def)
  ultimately show ?thesis using b by (simp add: power_int_def)
next
  case False
  define c where "c = \<lceil>1 / y\<rceil>"
  define k where "k = bitlen (c - 1)"
  have z: "1 < 1 / y" using False assms by simp
  then have c: "2 \<le> c" unfolding c_def by linarith
  have k0: "0 \<le> k" by (simp add: k_def bitlen_nonneg)
  have "c - 1 < 2 ^ nat k" using bitlen_bounds [of "c - 1"] c by (simp add: k_def)
  then have "c \<le> 2 ^ nat k" by simp
  then have "(of_int c :: rat) \<le> of_int (2 ^ nat k)" by (simp only: of_int_le_iff)
  then have "(of_int c :: rat) \<le> 2 ^ nat k" by simp
  moreover have "1 / y \<le> of_int c" by (simp add: c_def)
  ultimately have "1 / y \<le> 2 ^ nat k" by linarith
  then have "1 \<le> 2 ^ nat k * y" using assms by (simp add: field_simps)
  then have "1 / 2 ^ nat k \<le> y" by (simp add: field_simps)
  moreover have "bexp y = - k" using False by (simp add: bexp_def c_def k_def)
  ultimately show ?thesis using powi_neg [OF k0] by simp
qed

lemma bexp_upper:
  assumes "0 < y"
  shows "y < 2 powi (bexp y + 1)"
proof (cases "1 \<le> y")
  case True
  define n where "n = \<lfloor>y\<rfloor>"
  have n: "1 \<le> n" using True by (simp add: n_def)
  then have b: "1 \<le> bitlen n" by (simp add: bitlen_alt_def)
  have "n < 2 ^ nat (bitlen n)" using bitlen_bounds [of n] n by simp
  then have "n + 1 \<le> 2 ^ nat (bitlen n)" by simp
  then have "(of_int (n + 1) :: rat) \<le> of_int (2 ^ nat (bitlen n))" by (simp only: of_int_le_iff)
  then have "(of_int n :: rat) + 1 \<le> 2 ^ nat (bitlen n)" by simp
  moreover have "y < of_int n + 1" unfolding n_def by linarith
  ultimately have "y < 2 ^ nat (bitlen n)" by linarith
  moreover have "bexp y + 1 = bitlen n" using True by (simp add: bexp_def n_def)
  ultimately show ?thesis using b by (simp add: power_int_def)
next
  case False
  define c where "c = \<lceil>1 / y\<rceil>"
  define k where "k = bitlen (c - 1)"
  have z: "1 < 1 / y" using False assms by simp
  then have c: "2 \<le> c" unfolding c_def by linarith
  then have k1: "1 \<le> k" by (simp add: k_def bitlen_alt_def)
  have "(2::int) ^ nat (k - 1) \<le> c - 1" using bitlen_bounds [of "c - 1"] c by (simp add: k_def)
  then have "(of_int (2 ^ nat (k - 1)) :: rat) \<le> of_int (c - 1)" by (simp only: of_int_le_iff)
  then have "(2::rat) ^ nat (k - 1) \<le> of_int c - 1" by simp
  moreover have "of_int c - 1 < 1 / y" unfolding c_def by linarith
  ultimately have "(2::rat) ^ nat (k - 1) < 1 / y" by linarith
  then have "2 ^ nat (k - 1) * y < 1" using assms by (simp add: field_simps)
  then have "y < 1 / 2 ^ nat (k - 1)" by (simp add: field_simps)
  moreover have "bexp y + 1 = - (k - 1)" using False by (simp add: bexp_def c_def k_def)
  ultimately show ?thesis using powi_neg [of "k - 1"] k1 by simp
qed

lemma powi2_less_imp: "(2::rat) powi m < 2 powi n \<Longrightarrow> m < n"
  using power_int_increasing [of n m "2::rat"] by (cases "m < n") auto

lemma powi2_mono: "m \<le> n \<Longrightarrow> (2::rat) powi m \<le> 2 powi n"
  by (rule power_int_increasing) simp_all


lemma round_half_even_upper: "of_int (round_half_even m) \<le> m + 1 / 2"
  unfolding round_half_even_def Let_def by (auto; linarith)


lemma ulp_of_pos: "0 < ulp_of a"
  by (simp add: ulp_of_def)



lemma bexp_less:
  assumes "0 < y" and "y < 2 powi n"
  shows "bexp y < n"
  using bexp_lower [OF assms(1)] assms(2) powi2_less_imp [of "bexp y" n] by linarith

lemma bexp_ge:
  assumes "2 powi n \<le> y"
  shows "n \<le> bexp y"
proof -
  have "0 < y" using assms zero_less_power_int [of "2::rat" n] by linarith
  then have "2 powi n < (2::rat) powi (bexp y + 1)" using bexp_upper [of y] assms by linarith
  then show ?thesis using powi2_less_imp by fastforce
qed



















section \<open>Reading back what the JSON encoder wrote\<close>

lemma hex_value_hex_digit: "d < 16 \<Longrightarrow> hex_value (hex_digit d) = Some d"
  by (auto simp: hex_value_def hex_digit_def)

lemma decode_control:
  assumes "c < 32"
  shows "decode_uXXXX (48 # 48 # hex_digit (c div 16) # hex_digit (c mod 16) # r) = Some c"
proof -
  have a: "hex_value (hex_digit (c div 16)) = Some (c div 16)"
    using assms by (intro hex_value_hex_digit) simp
  have b: "hex_value (hex_digit (c mod 16)) = Some (c mod 16)"
    by (intro hex_value_hex_digit) simp
  have z: "hex_value 48 = Some 0" by (simp add: hex_value_def)
  show ?thesis by (simp add: decode_uXXXX_def a b z)
qed

lemma scanstring_escape_char:
  "scanstring (escape_char c @ r) = map_option (\<lambda>(x, rest). (c # x, rest)) (scanstring r)"
proof -
  consider "c = 92" | "c = 34" | "c = 8" | "c = 12" | "c = 10" | "c = 13" | "c = 9"
    | "c < 32" "c \<notin> {8, 12, 10, 13, 9}" | "32 \<le> c" "c \<noteq> 92" "c \<noteq> 34"
    by fastforce
  then show ?thesis
  proof cases
    case 8
    have e: "escape_char c = 92 # 117 # 48 # 48 # hex_digit (c div 16) # hex_digit (c mod 16) # []"
      using 8 by (simp add: escape_char_def str_def)
    show ?thesis
      unfolding e using 8(1) decode_control [OF 8(1)] by simp
  next
    case 9
    then show ?thesis by (simp add: escape_char_def)
  qed (simp_all add: escape_char_def unescape_def str_def)
qed

lemma scanstring_escaped:
  "scanstring (concat (map escape_char s) @ 34 # rest) = Some (s, rest)"
  by (induction s) (simp_all add: scanstring_escape_char)

lemma parse_string:
  "parse_value (Suc n) (encode_basestring s @ rest) = Some (JString s, rest)"
  by (simp add: encode_basestring_def scanstring_escaped)

lemma decimal_value_snoc: "decimal_value (ds @ [c]) = 10 * decimal_value ds + (c - 48)"
  by (simp add: decimal_value_def)

lemma decimal_value_append:
  "decimal_value (a @ b) = decimal_value a * 10 ^ length b + decimal_value b"
proof (induction b rule: rev_induct)
  case Nil
  show ?case by (simp add: decimal_value_def)
next
  case (snoc c b)
  have "decimal_value (a @ b @ [c]) = 10 * decimal_value (a @ b) + (c - 48)"
    using decimal_value_snoc [of "a @ b" c] by simp
  then show ?case by (simp add: snoc.IH decimal_value_snoc algebra_simps)
qed

lemma decimal_value_zeros: "decimal_value (replicate k 48) = 0"
  by (induction k) (simp_all add: decimal_value_def)

lemma decimal_value_digits10: "decimal_value (digits10 n) = n"
proof (induction n rule: digits10.induct)
  case (1 n)
  show ?case
  proof (cases "n < 10")
    case True
    then show ?thesis by (subst digits10.simps) (simp add: decimal_value_def)
  next
    case False
    then show ?thesis
      using 1 by (subst digits10.simps) (simp add: decimal_value_snoc)
  qed
qed

lemma digits10_all_digits: "list_all is_digit (digits10 n)"
  using digits10_set [of n] by (auto simp: list_all_iff is_digit_def)

lemma digits10_hd: "0 < n \<Longrightarrow> hd (digits10 n) \<noteq> 48"
proof (induction n rule: digits10.induct)
  case (1 n)
  show ?case
  proof (cases "n < 10")
    case True
    with 1(2) show ?thesis by (subst digits10.simps) simp
  next
    case False
    then have "0 < n div 10" by simp
    with 1(1) False have "hd (digits10 (n div 10)) \<noteq> 48" by simp
    then show ?thesis
      using False digits10_nonempty [of "n div 10"] by (subst digits10.simps) simp
  qed
qed

lemma takeWhile_digits:
  "list_all is_digit ds \<Longrightarrow> \<not> is_digit c \<Longrightarrow> takeWhile is_digit (ds @ c # r) = ds"
  by (induction ds) simp_all

lemma dropWhile_digits:
  "list_all is_digit ds \<Longrightarrow> \<not> is_digit c \<Longrightarrow> dropWhile is_digit (ds @ c # r) = c # r"
  by (induction ds) simp_all

lemma scan_int_part_digits:
  assumes "ds \<noteq> []" and "list_all is_digit ds" and "hd ds \<noteq> 48" and "\<not> is_digit c"
  shows "scan_int_part (ds @ c # r) = (ds, c # r)"
proof -
  obtain x xs where ds: "ds = x # xs" using assms(1) by (cases ds) auto
  have "scan_int_part (ds @ c # r) =
      (takeWhile is_digit (ds @ c # r), dropWhile is_digit (ds @ c # r))"
    using assms(3) by (simp add: scan_int_part_def ds)
  then show ?thesis
    using takeWhile_digits [OF assms(2,4)] dropWhile_digits [OF assms(2,4)] by simp
qed

lemma scan_int_part_zero: "scan_int_part (48 # r) = ([48], r)"
  by (simp add: scan_int_part_def)

lemma scan_frac_part_digits:
  assumes "fp \<noteq> []" and "list_all is_digit fp" and "\<not> is_digit c"
  shows "scan_frac_part (46 # fp @ c # r) = (fp, c # r)"
  using assms takeWhile_digits [OF assms(2,3)] dropWhile_digits [OF assms(2,3)]
  by (simp add: scan_frac_part_def)

lemma scan_frac_part_none: "c \<noteq> 46 \<Longrightarrow> scan_frac_part (c # r) = ([], c # r)"
  by (simp add: scan_frac_part_def)

lemma scan_exp_part_none: "c \<noteq> 101 \<Longrightarrow> c \<noteq> 69 \<Longrightarrow> scan_exp_part (c # r) = (None, c # r)"
  by (simp add: scan_exp_part_def)

lemma scan_exp_part_digits:
  assumes "eds \<noteq> []" and "list_all is_digit eds" and "\<not> is_digit c" and "sg = 43 \<or> sg = 45"
  shows "scan_exp_part (101 # sg # eds @ c # r) =
         (Some ((if sg = 45 then - 1 else 1) * int (decimal_value eds)), c # r)"
  using assms takeWhile_digits [OF assms(2,3)] dropWhile_digits [OF assms(2,3)]
  by (auto simp: scan_exp_part_def)

lemma scan_int_part_ok:
  assumes "ip \<noteq> []" and "list_all is_digit ip" and "hd ip \<noteq> 48 \<or> ip = [48]"
    and "\<not> is_digit c"
  shows "scan_int_part (ip @ c # r) = (ip, c # r)"
  using assms scan_int_part_digits [of ip c r] scan_int_part_zero [of "c # r"] by auto

lemma hd_digit_not_minus: "ip \<noteq> [] \<Longrightarrow> list_all is_digit ip \<Longrightarrow> hd ip \<noteq> 45"
  by (cases ip) (auto simp: is_digit_def)

lemma scan_number_sign:
  assumes "ip \<noteq> []" and "list_all is_digit ip"
  shows "(case (if neg then [45] else []) @ ip @ t of
            [] \<Rightarrow> (False, (if neg then [45] else []) @ ip @ t)
          | c # u \<Rightarrow> if c = 45 then (True, u) else (False, (if neg then [45] else []) @ ip @ t))
         = (neg, ip @ t)"
  using hd_digit_not_minus [OF assms] assms(1) by (cases ip) auto

lemma scan_number_frac:
  assumes "ip \<noteq> []" and "list_all is_digit ip" and "hd ip \<noteq> 48 \<or> ip = [48]"
    and "fp \<noteq> []" and "list_all is_digit fp" and "delim d"
  shows "scan_number ((if neg then [45] else []) @ ip @ 46 # fp @ d # r) =
         (if finite_float (fl (number_value neg ip fp None))
          then Some (JFloat (fl (number_value neg ip fp None)), d # r) else None)"
proof -
  have d: "\<not> is_digit d" "d \<noteq> 101" "d \<noteq> 69" using assms(6) by (simp_all add: delim_def)
  have dot: "\<not> is_digit 46" by (simp add: is_digit_def)
  have i: "scan_int_part (ip @ 46 # fp @ d # r) = (ip, 46 # fp @ d # r)"
    by (rule scan_int_part_ok [OF assms(1,2,3) dot])
  have f: "scan_frac_part (46 # fp @ d # r) = (fp, d # r)"
    by (rule scan_frac_part_digits [OF assms(4,5) d(1)])
  have e: "scan_exp_part (d # r) = (None, d # r)"
    by (rule scan_exp_part_none [OF d(2,3)])
  show ?thesis
    unfolding scan_number_def scan_number_sign [OF assms(1,2)]
    using assms(1,4) by (simp add: i f e)
qed

lemma scan_number_frac_exp:
  assumes "ip \<noteq> []" and "list_all is_digit ip" and "hd ip \<noteq> 48 \<or> ip = [48]"
    and "fp \<noteq> []" and "list_all is_digit fp" and "delim d"
    and "eds \<noteq> []" and "list_all is_digit eds" and "sg = 43 \<or> sg = 45"
    and "k = (if sg = 45 then - 1 else 1) * int (decimal_value eds)"
  shows "scan_number ((if neg then [45] else []) @ ip @ 46 # fp @ 101 # sg # eds @ d # r) =
         (if finite_float (fl (number_value neg ip fp (Some k)))
          then Some (JFloat (fl (number_value neg ip fp (Some k))), d # r) else None)"
proof -
  have d: "\<not> is_digit d" using assms(6) by (simp add: delim_def)
  have dot: "\<not> is_digit 46" "\<not> is_digit 101" by (simp_all add: is_digit_def)
  have i: "scan_int_part (ip @ 46 # fp @ 101 # sg # eds @ d # r) = (ip, 46 # fp @ 101 # sg # eds @ d # r)"
    by (rule scan_int_part_ok [OF assms(1,2,3) dot(1)])
  have f: "scan_frac_part (46 # fp @ 101 # sg # eds @ d # r) = (fp, 101 # sg # eds @ d # r)"
    by (rule scan_frac_part_digits [OF assms(4,5) dot(2)])
  have e: "scan_exp_part (101 # sg # eds @ d # r) = (Some k, d # r)"
    unfolding assms(10) by (rule scan_exp_part_digits [OF assms(7,8) d assms(9)])
  show ?thesis
    unfolding scan_number_def scan_number_sign [OF assms(1,2)]
    using assms(1,4) by (simp add: i f e)
qed

lemma scan_number_exp:
  assumes "ip \<noteq> []" and "list_all is_digit ip" and "hd ip \<noteq> 48 \<or> ip = [48]"
    and "delim d"
    and "eds \<noteq> []" and "list_all is_digit eds" and "sg = 43 \<or> sg = 45"
    and "k = (if sg = 45 then - 1 else 1) * int (decimal_value eds)"
  shows "scan_number ((if neg then [45] else []) @ ip @ 101 # sg # eds @ d # r) =
         (if finite_float (fl (number_value neg ip [] (Some k)))
          then Some (JFloat (fl (number_value neg ip [] (Some k))), d # r) else None)"
proof -
  have d: "\<not> is_digit d" using assms(4) by (simp add: delim_def)
  have dot: "\<not> is_digit 101" by (simp_all add: is_digit_def)
  have i: "scan_int_part (ip @ 101 # sg # eds @ d # r) = (ip, 101 # sg # eds @ d # r)"
    by (rule scan_int_part_ok [OF assms(1,2,3) dot(1)])
  have f: "scan_frac_part (101 # sg # eds @ d # r) = ([], 101 # sg # eds @ d # r)"
    by (rule scan_frac_part_none) simp
  have e: "scan_exp_part (101 # sg # eds @ d # r) = (Some k, d # r)"
    unfolding assms(8) by (rule scan_exp_part_digits [OF assms(5,6) d assms(7)])
  show ?thesis
    unfolding scan_number_def scan_number_sign [OF assms(1,2)]
    using assms(1) by (simp add: i f e)
qed

lemma powi10_diff_nat: "(10::rat) powi (a - int n) = 10 powi a / 10 ^ n"
  by (simp add: power_int_diff)

lemma decimal_value_zfill: "decimal_value (replicate k 48 @ ds) = decimal_value ds"
  by (simp add: decimal_value_append decimal_value_zeros)

lemma list_all_zeros: "list_all is_digit (replicate k 48)"
  by (simp add: list_all_iff is_digit_def)

lemma exponent_digits:
  fixes i :: int
  defines "eds \<equiv> format_0d 2 \<bar>i\<bar>"
  shows "eds \<noteq> []" and "list_all is_digit eds" and "int (decimal_value eds) = \<bar>i\<bar>"
proof -
  have e: "eds = replicate (2 - length (digits10 (nat \<bar>i\<bar>))) 48 @ digits10 (nat \<bar>i\<bar>)"
    by (simp add: eds_def format_0d_def zfill_def)
  show "eds \<noteq> []" unfolding e using digits10_nonempty by simp
  show "list_all is_digit eds" unfolding e using digits10_all_digits list_all_zeros by simp
  show "int (decimal_value eds) = \<bar>i\<bar>"
    unfolding e decimal_value_zfill decimal_value_digits10 by simp
qed

lemma value_exp_form:
  "number_value neg [x] xs (Some (decpt - 1)) =
     (if neg then - 1 else 1) * num_value (x # xs) decpt"
proof -
  have "decimal_value (x # xs) = decimal_value [x] * 10 ^ length xs + decimal_value xs"
    using decimal_value_append [of "[x]" xs] by simp
  then have "(of_nat (decimal_value (x # xs)) :: rat) =
      of_nat (decimal_value [x]) * 10 ^ length xs + of_nat (decimal_value xs)"
    by simp
  moreover have "decpt - int (length (x # xs)) = (decpt - 1) - int (length xs)" by simp
  ultimately show ?thesis
    unfolding number_value_def num_value_def
    by (simp only: powi10_diff_nat option.case) (simp add: field_simps)
qed

lemma value_small_form:
  assumes "decpt \<le> 0"
  shows "number_value neg [48] (replicate (nat (- decpt)) 48 @ ds) None =
     (if neg then - 1 else 1) * num_value ds decpt"
proof -
  have z: "decimal_value [48] = 0" by (simp add: decimal_value_def)
  have "decpt - int (length ds) = 0 - int (nat (- decpt) + length ds)" using assms by simp
  then have "(10::rat) powi (decpt - int (length ds)) = 1 / 10 ^ (nat (- decpt) + length ds)"
    by (simp only: powi10_diff_nat) simp
  then show ?thesis
    unfolding number_value_def num_value_def
    by (simp add: z decimal_value_zfill)
qed

lemma value_split_form:
  assumes "0 < decpt" and "nat decpt < length ds"
  shows "number_value neg (take (nat decpt) ds) (drop (nat decpt) ds) None =
     (if neg then - 1 else 1) * num_value ds decpt"
proof -
  define n where "n = nat decpt"
  have l: "length (drop n ds) = length ds - n" by simp
  have "decimal_value ds = decimal_value (take n ds) * 10 ^ (length ds - n) + decimal_value (drop n ds)"
    using decimal_value_append [of "take n ds" "drop n ds"] by simp
  then have v: "(of_nat (decimal_value ds) :: rat) =
      of_nat (decimal_value (take n ds)) * 10 ^ (length ds - n) + of_nat (decimal_value (drop n ds))"
    by simp
  have "decpt - int (length ds) = 0 - int (length ds - n)" using assms by (simp add: n_def)
  then have p: "(10::rat) powi (decpt - int (length ds)) = 1 / 10 ^ (length ds - n)"
    by (simp only: powi10_diff_nat) simp
  show ?thesis
    unfolding number_value_def num_value_def n_def [symmetric] p v l
    by (simp add: field_simps)
qed

lemma value_integral_form:
  assumes "int (length ds) \<le> decpt"
  shows "number_value neg (ds @ replicate (nat decpt - length ds) 48) [48] None =
     (if neg then - 1 else 1) * num_value ds decpt"
proof -
  have z: "decimal_value [48] = 0" by (simp add: decimal_value_def)
  have "decpt - int (length ds) = int (nat decpt - length ds)" using assms by simp
  then have p: "(10::rat) powi (decpt - int (length ds)) = 10 ^ (nat decpt - length ds)"
    by (simp only: power_int_of_nat)
  show ?thesis
    unfolding number_value_def num_value_def p
    by (simp add: z decimal_value_append decimal_value_zeros)
qed

lemma list_all_take_drop:
  "list_all P ds \<Longrightarrow> list_all P (take n ds) \<and> list_all P (drop n ds)"
  by (auto simp: list_all_iff dest: in_set_takeD in_set_dropD)

lemma scan_number_layout:
  assumes "ds \<noteq> []" and "list_all is_digit ds" and "hd ds \<noteq> 48" and "delim d"
  shows "scan_number ((if neg then [45] else []) @ float_layout ds decpt @ d # r) =
         (if finite_float (fl ((if neg then - 1 else 1) * num_value ds decpt))
          then Some (JFloat (fl ((if neg then - 1 else 1) * num_value ds decpt)), d # r)
          else None)"
proof -
  obtain x xs where ds: "ds = x # xs" using assms(1) by (cases ds) auto
  have x: "is_digit x" "x \<noteq> 48" "list_all is_digit xs" using assms(2,3) by (simp_all add: ds)
  consider (exp) "decpt \<le> - 4 \<or> 16 < decpt"
    | (small) "- 4 < decpt" "decpt \<le> 0"
    | (split) "0 < decpt" "decpt \<le> 16" "nat decpt < length ds"
    | (integral) "0 < decpt" "decpt \<le> 16" "length ds \<le> nat decpt"
    by linarith
  then show ?thesis
  proof cases
    case exp
    define sg :: nat where "sg = (if decpt - 1 < 0 then 45 else 43)"
    define eds where "eds = format_0d 2 \<bar>decpt - 1\<bar>"
    have sg: "sg = 43 \<or> sg = 45" by (simp add: sg_def)
    have k: "decpt - 1 = (if sg = 45 then - 1 else 1) * int (decimal_value eds)"
      unfolding eds_def exponent_digits(3) by (simp add: sg_def)
    have lay: "float_layout ds decpt = [x] @ (if xs = [] then [] else 46 # xs) @ 101 # sg # eds"
      using exp by (auto simp: float_layout_def ds sg_def eds_def)
    have ip: "[x] \<noteq> []" "list_all is_digit [x]" "hd [x] \<noteq> 48 \<or> [x] = [48]"
      using x by simp_all
    have eds: "eds \<noteq> []" "list_all is_digit eds"
      unfolding eds_def by (rule exponent_digits)+
    show ?thesis
    proof (cases "xs = []")
      case True
      have "scan_number ((if neg then [45] else []) @ [x] @ 101 # sg # eds @ d # r) =
         (if finite_float (fl (number_value neg [x] [] (Some (decpt - 1))))
          then Some (JFloat (fl (number_value neg [x] [] (Some (decpt - 1)))), d # r) else None)"
        by (rule scan_number_exp [OF ip assms(4) eds sg k])
      then show ?thesis
        unfolding lay value_exp_form using True by (simp add: ds)
    next
      case False
      have "scan_number ((if neg then [45] else []) @ [x] @ 46 # xs @ 101 # sg # eds @ d # r) =
         (if finite_float (fl (number_value neg [x] xs (Some (decpt - 1))))
          then Some (JFloat (fl (number_value neg [x] xs (Some (decpt - 1)))), d # r) else None)"
        by (rule scan_number_frac_exp [OF ip False x(3) assms(4) eds sg k])
      then show ?thesis
        unfolding lay value_exp_form using False by (simp add: ds)
    qed
  next
    case small
    define fp where "fp = replicate (nat (- decpt)) 48 @ ds"
    have lay: "float_layout ds decpt = [48] @ 46 # fp"
      using small by (simp add: float_layout_def fp_def str_def)
    have fp: "fp \<noteq> []" "list_all is_digit fp"
      using assms(1,2) list_all_zeros by (simp_all add: fp_def)
    have "scan_number ((if neg then [45] else []) @ [48] @ 46 # fp @ d # r) =
         (if finite_float (fl (number_value neg [48] fp None))
          then Some (JFloat (fl (number_value neg [48] fp None)), d # r) else None)"
      by (rule scan_number_frac [OF _ _ _ fp assms(4)]) (simp_all add: is_digit_def)
    then show ?thesis
      unfolding lay fp_def value_small_form [OF small(2)] by simp
  next
    case split
    define ip where "ip = take (nat decpt) ds"
    define fp where "fp = drop (nat decpt) ds"
    have lay: "float_layout ds decpt = ip @ 46 # fp"
      using split by (simp add: float_layout_def ip_def fp_def)
    have ip: "ip \<noteq> []" "list_all is_digit ip" "hd ip \<noteq> 48 \<or> ip = [48]"
      using split(1) assms(1,2,3) list_all_take_drop [OF assms(2)]
      by (simp_all add: ip_def ds)
    have fp: "fp \<noteq> []" "list_all is_digit fp"
      using split(3) list_all_take_drop [OF assms(2)] by (simp_all add: fp_def)
    have "scan_number ((if neg then [45] else []) @ ip @ 46 # fp @ d # r) =
         (if finite_float (fl (number_value neg ip fp None))
          then Some (JFloat (fl (number_value neg ip fp None)), d # r) else None)"
      by (rule scan_number_frac [OF ip fp assms(4)])
    then show ?thesis
      unfolding lay ip_def fp_def value_split_form [OF split(1,3)] by simp
  next
    case integral
    define ip where "ip = ds @ replicate (nat decpt - length ds) 48"
    have lay: "float_layout ds decpt = ip @ 46 # [48]"
      using integral by (simp add: float_layout_def ip_def str_def)
    have ip: "ip \<noteq> []" "list_all is_digit ip" "hd ip \<noteq> 48 \<or> ip = [48]"
      using assms(1,2,3) list_all_zeros by (simp_all add: ip_def)
    have l: "int (length ds) \<le> decpt" using integral by simp
    have "scan_number ((if neg then [45] else []) @ ip @ 46 # [48] @ d # r) =
         (if finite_float (fl (number_value neg ip [48] None))
          then Some (JFloat (fl (number_value neg ip [48] None)), d # r) else None)"
      by (rule scan_number_frac [OF ip _ _ assms(4)]) (simp_all add: is_digit_def)
    then show ?thesis
      unfolding lay ip_def value_integral_form [OF l] by simp
  qed
qed

lemma powi10_neg: "0 \<le> n \<Longrightarrow> (10::rat) powi (- n) = 1 / 10 ^ nat n"
  by (cases "n = 0") (simp_all add: power_int_def field_simps)

lemma dexp_lower:
  assumes "0 < a"
  shows "10 powi (dexp a) \<le> a"
proof (cases "1 \<le> a")
  case True
  define n where "n = nat \<lfloor>a\<rfloor>"
  have n: "0 < n" using True by (simp add: n_def)
  then have b: "1 \<le> floorlog 10 n" by (simp add: floorlog_def)
  have "10 ^ (floorlog 10 n - 1) \<le> n" using floorlog_bounds [of n 10] n by simp
  then have "(of_nat (10 ^ (floorlog 10 n - 1)) :: rat) \<le> of_nat n" by (simp only: of_nat_le_iff)
  also have "\<dots> = of_int \<lfloor>a\<rfloor>" using True by (simp add: n_def)
  also have "\<dots> \<le> a" by simp
  finally have "(10::rat) ^ (floorlog 10 n - 1) \<le> a" by simp
  moreover have "dexp a = int (floorlog 10 n - 1)" using True b by (simp add: dexp_def n_def)
  ultimately show ?thesis by simp
next
  case False
  define c where "c = \<lceil>1 / a\<rceil>"
  define k where "k = floorlog 10 (nat (c - 1))"
  have z: "1 < 1 / a" using False assms by simp
  then have c: "2 \<le> c" unfolding c_def by linarith
  have "nat (c - 1) < 10 ^ k" using floorlog_bounds [of "nat (c - 1)" 10] c by (simp add: k_def)
  then have "int (nat (c - 1)) < int (10 ^ k)" by (simp only: of_nat_less_iff)
  then have "c \<le> 10 ^ k" using c by simp
  then have "(of_int c :: rat) \<le> of_int (10 ^ k)" by (simp only: of_int_le_iff)
  then have "(of_int c :: rat) \<le> 10 ^ k" by simp
  moreover have "1 / a \<le> of_int c" by (simp add: c_def)
  ultimately have "1 / a \<le> 10 ^ k" by linarith
  then have "1 \<le> 10 ^ k * a" using assms by (simp add: field_simps)
  then have "1 / 10 ^ k \<le> a" by (simp add: field_simps)
  moreover have "dexp a = - int k" using False by (simp add: dexp_def c_def k_def)
  ultimately show ?thesis using powi10_neg [of "int k"] by simp
qed

lemma dexp_upper:
  assumes "0 < a"
  shows "a < 10 powi (dexp a + 1)"
proof (cases "1 \<le> a")
  case True
  define n where "n = nat \<lfloor>a\<rfloor>"
  have n: "0 < n" using True by (simp add: n_def)
  then have b: "1 \<le> floorlog 10 n" by (simp add: floorlog_def)
  have "n < 10 ^ floorlog 10 n" using floorlog_bounds [of n 10] n by simp
  then have "n + 1 \<le> 10 ^ floorlog 10 n" by simp
  then have "(of_nat (n + 1) :: rat) \<le> of_nat (10 ^ floorlog 10 n)" by (simp only: of_nat_le_iff)
  then have "(of_nat n :: rat) + 1 \<le> 10 ^ floorlog 10 n" by simp
  moreover have "(of_nat n :: rat) = of_int \<lfloor>a\<rfloor>" using True by (simp add: n_def)
  moreover have "a < of_int \<lfloor>a\<rfloor> + 1" by linarith
  ultimately have "a < 10 ^ floorlog 10 n" by linarith
  moreover have "dexp a + 1 = int (floorlog 10 n)" using True b by (simp add: dexp_def n_def)
  ultimately show ?thesis by simp
next
  case False
  define c where "c = \<lceil>1 / a\<rceil>"
  define k where "k = floorlog 10 (nat (c - 1))"
  have z: "1 < 1 / a" using False assms by simp
  then have c: "2 \<le> c" unfolding c_def by linarith
  then have k1: "1 \<le> k" by (simp add: k_def floorlog_def)
  have "10 ^ (k - 1) \<le> nat (c - 1)" using floorlog_bounds [of "nat (c - 1)" 10] c by (simp add: k_def)
  then have "int (10 ^ (k - 1)) \<le> int (nat (c - 1))" by (simp only: of_nat_le_iff)
  then have "10 ^ (k - 1) \<le> c - 1" using c by simp
  then have "(of_int (10 ^ (k - 1)) :: rat) \<le> of_int (c - 1)" by (simp only: of_int_le_iff)
  then have "(10::rat) ^ (k - 1) \<le> of_int c - 1" by simp
  moreover have "of_int c - 1 < 1 / a" unfolding c_def by linarith
  ultimately have "(10::rat) ^ (k - 1) < 1 / a" by linarith
  then have "10 ^ (k - 1) * a < 1" using assms by (simp add: field_simps)
  then have "a < 1 / 10 ^ (k - 1)" by (simp add: field_simps)
  moreover have "dexp a + 1 = - int (k - 1)" using False k1 by (simp add: dexp_def c_def k_def)
  ultimately show ?thesis using powi10_neg [of "int (k - 1)"] by simp
qed

lemma round_half_even_near:
  assumes "\<bar>m - of_int K\<bar> < 1 / 2"
  shows "round_half_even m = K"
proof (cases "of_int K \<le> m")
  case True
  then have "\<lfloor>m\<rfloor> = K" using assms by (simp add: floor_eq_iff)
  then show ?thesis using assms True by (simp add: round_half_even_def)
next
  case False
  then have f: "\<lfloor>m\<rfloor> = K - 1" using assms by (simp add: floor_eq_iff)
  have "1 / 2 < m - of_int (K - 1)" using assms False by simp
  then show ?thesis unfolding round_half_even_def Let_def f by simp
qed

lemma round_half_even_lower: "m - 1 / 2 \<le> of_int (round_half_even m)"
  unfolding round_half_even_def Let_def by (auto; linarith)

lemma fl_unique:
  assumes "0 < d" and "a = of_int K * ulp_of d" and "\<bar>d - a\<bar> < ulp_of d / 2"
  shows "fl d = a"
proof -
  have w: "0 < ulp_of d" by (rule ulp_of_pos)
  have "d / ulp_of d - of_int K = (d - a) / ulp_of d"
    using w by (simp add: assms(2) field_simps)
  then have "\<bar>d / ulp_of d - of_int K\<bar> = \<bar>d - a\<bar> / ulp_of d"
    using w by simp
  also have "\<dots> < 1 / 2" using assms(3) w by (simp add: field_simps)
  finally have "round_half_even (d / ulp_of d) = K" by (rule round_half_even_near)
  then show ?thesis using assms(1,2) by (simp add: fl_def)
qed

lemma powi2_split:
  assumes "j \<le> i"
  shows "(2::rat) powi i = of_int (2 ^ nat (i - j)) * 2 powi j"
proof -
  have "(2::rat) powi i = 2 powi (j + (i - j))" by simp
  also have "\<dots> = 2 powi j * 2 powi (i - j)" by (rule power_int_add) simp
  also have "2 powi (i - j) = (2::rat) ^ nat (i - j)"
    using assms by (simp add: power_int_nonneg_exp)
  finally show ?thesis by simp
qed

lemma multiple_gap:
  fixes u :: rat
  assumes "0 < u" and "of_int K * u < of_int N * u"
  shows "of_int K * u + u \<le> of_int N * u"
proof -
  have "(of_int K :: rat) < of_int N" using assms by simp
  then have "K + 1 \<le> N" by simp
  then have "(of_int (K + 1) :: rat) \<le> of_int N" by (simp only: of_int_le_iff)
  then have "of_int (K + 1) * u \<le> of_int N * u" using assms(1) by (simp only: mult_le_cancel_right_pos)
  then show ?thesis by (simp add: algebra_simps)
qed

lemma double_multiple:
  assumes "0 < a" and "fl a = a"
  shows "a = of_int (round_half_even (a / ulp_of a)) * ulp_of a"
    and "ulp_of a \<le> a"
proof -
  show m: "a = of_int (round_half_even (a / ulp_of a)) * ulp_of a"
    using assms by (simp add: fl_def)
  have u: "0 < ulp_of a" by (rule ulp_of_pos)
  have "0 < of_int (round_half_even (a / ulp_of a)) * ulp_of a" using m assms(1) by simp
  then have "(0::rat) < of_int (round_half_even (a / ulp_of a))" using u by (simp add: zero_less_mult_iff)
  then have "1 \<le> round_half_even (a / ulp_of a)" by simp
  then have "(1::rat) \<le> of_int (round_half_even (a / ulp_of a))" by (simp only: of_int_1_le_iff)
  then have "1 * ulp_of a \<le> of_int (round_half_even (a / ulp_of a)) * ulp_of a"
    using u by (simp only: mult_le_cancel_right_pos)
  then show "ulp_of a \<le> a" using m by simp
qed

lemma bexp_eq:
  assumes "2 powi n \<le> y" and "y < 2 powi (n + 1)"
  shows "bexp y = n"
proof -
  have "0 < y" using assms(1) zero_less_power_int [of "2::rat" n] by linarith
  then have "bexp y < n + 1" using assms(2) by (rule bexp_less)
  moreover have "n \<le> bexp y" using assms(1) by (rule bexp_ge)
  ultimately show ?thesis by simp
qed

lemma seventeen_digits:
  assumes a0: "0 < a" and da: "fl a = a"
  defines "s \<equiv> 10 powi (dexp a - 16)"
  defines "M \<equiv> round_half_even (a / s)"
  shows "fl (of_int M * s) = a" and "1 \<le> M"
proof -
  define d where "d = of_int M * s"
  define e where "e = bexp a"
  define E where "E = max e (- 1022)"
  define u where "u = ulp_of a"
  define K where "K = round_half_even (a / u)"
  have s0: "0 < s" by (simp add: s_def)
  have u0: "0 < u" unfolding u_def by (rule ulp_of_pos)
  have uE: "u = 2 powi (E - 52)" by (simp add: u_def ulp_of_def E_def e_def)
  have aK: "a = of_int K * u" unfolding K_def u_def by (rule double_multiple(1) [OF a0 da])
  have ua: "u \<le> a" unfolding u_def by (rule double_multiple(2) [OF a0 da])
  \<comment> \<open>the decimal step is small against the number\<close>
  have "s * 10 ^ 16 = 10 powi (dexp a)"
    by (simp add: s_def power_int_diff)
  then have s16: "s * 10 ^ 16 \<le> a" using dexp_lower [OF a0] by simp
  \<comment> \<open>the candidate is positive and within half a step\<close>
  have "10 ^ 16 \<le> a / s" using s16 s0 by (simp add: field_simps)
  then have "(10 ^ 16 - 1 / 2 :: rat) \<le> of_int M"
    using round_half_even_lower [of "a / s"] unfolding M_def by linarith
  then have "(0::rat) < of_int M" by simp
  then have M0: "0 < M" by simp
  then show "1 \<le> M" by simp
  have d0: "0 < d" using M0 s0 by (simp add: d_def)
  have "of_int M \<le> a / s + 1 / 2" "a / s - 1 / 2 \<le> of_int M"
    unfolding M_def by (rule round_half_even_upper round_half_even_lower)+
  then have "of_int M * s \<le> (a / s + 1 / 2) * s" "(a / s - 1 / 2) * s \<le> of_int M * s"
    using s0 by (simp_all only: mult_le_cancel_right_pos)
  moreover have "(a / s + 1 / 2) * s = a + s / 2" "(a / s - 1 / 2) * s = a - s / 2"
    using s0 by (simp_all add: field_simps)
  ultimately have near: "d \<le> a + s / 2" "a - s / 2 \<le> d"
    by (simp_all add: d_def)
  then have ad: "\<bar>d - a\<bar> \<le> s / 2" by linarith
  \<comment> \<open>the binade of the number\<close>
  have ae: "2 powi e \<le> a" "a < 2 powi (e + 1)"
    unfolding e_def by (rule bexp_lower [OF a0] bexp_upper [OF a0])+
  have "- 1074 \<le> E - 52" by (simp add: E_def)
  then have "(2::rat) powi (- 1074) \<le> 2 powi (E - 52)" by (rule powi2_mono)
  then have "2 powi (- 1074) \<le> a" using ua uE by linarith
  then have e1074: "- 1074 \<le> e" unfolding e_def by (rule bexp_ge)
  then have Ee: "E - 52 \<le> e" "e \<le> E" by (simp_all add: E_def)
  have top: "2 powi (E + 1) = of_int (2 ^ 53) * u"
    unfolding uE using powi2_split [of "E - 52" "E + 1"] by simp
  have "a < 2 powi (E + 1)" using ae(2) powi2_mono [of "e + 1" "E + 1"] Ee(2) by simp
  then have "s * 10 ^ 16 < 2 ^ 53 * u" using s16 top by simp
  moreover have "(2::rat) ^ 53 * u < 10 ^ 16 * u" using u0 by simp
  ultimately have "s * 10 ^ 16 < u * 10 ^ 16" by (simp add: mult.commute)
  then have su: "s < u" by simp
  \<comment> \<open>the candidate stays below the next binade\<close>
  have "2 powi (e + 1) = of_int (2 ^ nat (e + 1 - (E - 52))) * u"
    unfolding uE using Ee(1) by (intro powi2_split) simp
  then have "a + u \<le> 2 powi (e + 1)"
    using multiple_gap [OF u0, of K "2 ^ nat (e + 1 - (E - 52))"] ae(2) aK by simp
  then have dlt: "d < 2 powi (e + 1)" using near(1) su s0 by linarith
  have "s * 1 \<le> s * 10 ^ 16" using s0 by (intro mult_left_mono) simp_all
  then have "s \<le> a" using s16 by simp
  then have "a / 2 \<le> d" using near(2) by linarith
  moreover have "(2::rat) powi (e - 1) = 2 powi e / 2" by (simp add: power_int_diff)
  ultimately have dge: "2 powi (e - 1) \<le> d" using ae(1) by linarith
  show "fl (of_int M * s) = a"
  proof (cases "2 powi e \<le> d")
    case True
    then have "bexp d = e" using dlt by (rule bexp_eq)
    then have w: "ulp_of d = u" by (simp add: ulp_of_def uE E_def)
    have aw: "a = of_int K * ulp_of d" using aK w by simp
    have "\<bar>d - a\<bar> < ulp_of d / 2" unfolding w using ad su by linarith
    then have "fl d = a" by (rule fl_unique [OF d0 aw])
    then show ?thesis by (simp only: d_def)
  next
    case False
    then have dlow: "d < 2 powi e" by simp
    then have bd: "bexp d = e - 1" using dge bexp_eq [of "e - 1" d] by simp
    have pe: "2 powi e = of_int (2 ^ nat (e - (E - 52))) * u"
      unfolding uE using Ee(1) by (intro powi2_split)
    have "a < 2 powi e + u" using dlow near(2) su s0 by linarith
    then have "of_int K * u < of_int (2 ^ nat (e - (E - 52)) + 1) * u"
      using aK pe by (simp add: algebra_simps)
    then have "(of_int K :: rat) < of_int (2 ^ nat (e - (E - 52)) + 1)"
      using u0 by (simp only: mult_less_cancel_right_pos)
    then have "K \<le> 2 ^ nat (e - (E - 52))" by (simp only: of_int_less_iff)
    moreover have "of_int (2 ^ nat (e - (E - 52))) * u \<le> of_int K * u" using ae(1) aK pe by simp
    then have "(of_int (2 ^ nat (e - (E - 52))) :: rat) \<le> of_int K"
      using u0 by (simp only: mult_le_cancel_right_pos)
    then have "2 ^ nat (e - (E - 52)) \<le> K" by (simp only: of_int_le_iff)
    ultimately have "K = 2 ^ nat (e - (E - 52))" by simp
    then have a2: "a = 2 powi e" using aK pe by simp
    show ?thesis
    proof (cases "- 1022 \<le> e - 1")
      case True
      then have w: "ulp_of d = 2 powi (e - 53)" by (simp add: ulp_of_def bd)
      have aw: "a = of_int (2 ^ 53) * ulp_of d"
        unfolding w a2 using powi2_split [of "e - 53" e] by simp
      have "s * 10 ^ 16 \<le> 2 ^ 53 * ulp_of d" using s16 aw by simp
      moreover have "(2::rat) ^ 53 * ulp_of d < 10 ^ 16 * ulp_of d"
        using ulp_of_pos [of d] by simp
      ultimately have "s * 10 ^ 16 < ulp_of d * 10 ^ 16" by (simp add: mult.commute)
      then have "s < ulp_of d" by simp
      then have "\<bar>d - a\<bar> < ulp_of d / 2" using ad by linarith
      then have "fl d = a" by (rule fl_unique [OF d0 aw])
      then show ?thesis by (simp only: d_def)
    next
      case False
      then have w: "ulp_of d = u" by (simp add: ulp_of_def bd uE E_def)
      have aw: "a = of_int K * ulp_of d" using aK w by simp
      have "\<bar>d - a\<bar> < ulp_of d / 2" unfolding w using ad su by linarith
      then have "fl d = a" by (rule fl_unique [OF d0 aw])
      then show ?thesis by (simp only: d_def)
    qed
  qed
qed

text \<open>The shortest digits that \<^verbatim>\<open>repr\<close> picks denote a number that rounds to the float.\<close>

lemma round_half_even_cases:
  "round_half_even m = \<lfloor>m\<rfloor> \<or> round_half_even m = \<lfloor>m\<rfloor> + 1"
  by (simp add: round_half_even_def Let_def)

lemma scale_le:
  assumes "0 < a" and "1 \<le> n"
  shows "10 powi (dexp a + 1 - int n) \<le> a"
proof -
  have "(10::rat) powi (dexp a + 1 - int n) \<le> 10 powi (dexp a)"
    using assms(2) by (intro power_int_increasing) simp_all
  then show ?thesis using dexp_lower [OF assms(1)] by linarith
qed

lemma pick_digits_ok:
  assumes "0 < a" and "1 \<le> n" and "pick_digits a n = Some m"
  shows "1 \<le> m" and "fl (of_int m * 10 powi (dexp a + 1 - int n)) = a"
proof -
  define scale :: rat where "scale = 10 powi (dexp a + 1 - int n)"
  define lo where "lo = \<lfloor>a / scale\<rfloor>"
  have sc: "0 < scale" "scale \<le> a"
    using scale_le [OF assms(1,2)] by (simp_all add: scale_def)
  then have "1 \<le> a / scale" by simp
  then have lo1: "1 \<le> lo" by (simp add: lo_def)
  have m: "(m = lo \<and> fl (of_int lo * scale) = a) \<or> (m = lo + 1 \<and> fl (of_int (lo + 1) * scale) = a)"
    using assms(3) round_half_even_cases [of "a / scale"]
    unfolding pick_digits_def Let_def scale_def [symmetric] lo_def [symmetric]
    by (auto split: if_splits)
  show "1 \<le> m" using m lo1 by auto
  show "fl (of_int m * 10 powi (dexp a + 1 - int n)) = a"
    using m unfolding scale_def by auto
qed

lemma shortest_search_ok:
  assumes "0 < a" and "fl a = a" and "k + n = 17" and "1 \<le> n"
    and "shortest_search k n a = (m, n')"
  shows "1 \<le> m \<and> fl (of_int m * 10 powi (dexp a + 1 - int n')) = a"
  using assms(3,4,5)
proof (induction k arbitrary: n)
  case 0
  then have n: "n = 17" "n' = 17" and m: "m = round_half_even (a / 10 powi (dexp a - 16))"
    by auto
  show ?case
    using seventeen_digits [OF assms(1,2)] by (simp add: n m)
next
  case (Suc k)
  show ?case
  proof (cases "pick_digits a n")
    case None
    then have "shortest_search k (Suc n) a = (m, n')" using Suc.prems(3) by simp
    then show ?thesis using Suc.IH [of "Suc n"] Suc.prems(1) by simp
  next
    case (Some m0)
    then have "m = m0" "n' = n" using Suc.prems(3) by simp_all
    then show ?thesis using pick_digits_ok [OF assms(1) Suc.prems(2)] Some by simp
  qed
qed

lemma strip_trailing:
  fixes dg :: pystr
  defines "ds \<equiv> rev (dropWhile (\<lambda>c. c = 48) (rev dg))"
  shows "dg = ds @ replicate (length dg - length ds) 48"
    and "dg \<noteq> [] \<Longrightarrow> hd dg \<noteq> 48 \<Longrightarrow> ds \<noteq> [] \<and> hd ds = hd dg"
proof -
  define zs where "zs = rev (takeWhile (\<lambda>c. c = 48) (rev dg))"
  have "dg = rev (takeWhile (\<lambda>c. c = 48) (rev dg) @ dropWhile (\<lambda>c. c = 48) (rev dg))"
    by simp
  then have split: "dg = ds @ zs"
    by (simp only: rev_append ds_def zs_def)
  have "\<forall>y\<in>set zs. y = 48" unfolding zs_def by (auto dest: set_takeWhileD)
  then have z: "replicate (length zs) 48 = zs" by (rule replicate_length_same)
  have "length dg = length ds + length zs" using arg_cong [OF split, of length] by simp
  then have l: "length zs = length dg - length ds" by simp
  show "dg = ds @ replicate (length dg - length ds) 48"
    unfolding l [symmetric] z by (rule split)
  show "ds \<noteq> [] \<and> hd ds = hd dg" if "dg \<noteq> []" "hd dg \<noteq> 48"
  proof -
    have "ds \<noteq> []"
    proof
      assume "ds = []"
      then have "dg = zs" using split by simp
      then have "hd dg \<in> set zs" using that(1) by simp
      then show False using \<open>\<forall>y\<in>set zs. y = 48\<close> that(2) by simp
    qed
    then show ?thesis using arg_cong [OF split, of hd] by simp
  qed
qed

lemma shortest_digits_ok:
  assumes "0 < a" and "fl a = a" and "shortest_digits a = (ds, decpt)"
  shows "ds \<noteq> []" and "list_all is_digit ds" and "hd ds \<noteq> 48"
    and "fl (num_value ds decpt) = a"
proof -
  obtain m n where mn: "shortest_search 16 1 a = (m, n)" by (cases "shortest_search 16 1 a")
  define dg where "dg = digits10 (nat m)"
  have ok: "1 \<le> m" "fl (of_int m * 10 powi (dexp a + 1 - int n)) = a"
    using shortest_search_ok [OF assms(1,2) _ _ mn] by simp_all
  have ds: "ds = rev (dropWhile (\<lambda>c. c = 48) (rev dg))"
    and decpt: "decpt = dexp a + 1 + (int (length dg) - int n)"
    using assms(3) unfolding shortest_digits_def mn Let_def dg_def by simp_all
  have dg: "dg \<noteq> []" "hd dg \<noteq> 48" "list_all is_digit dg" "decimal_value dg = nat m"
    unfolding dg_def using ok(1) digits10_nonempty digits10_hd [of "nat m"] digits10_all_digits
      decimal_value_digits10 by simp_all
  have split: "dg = ds @ replicate (length dg - length ds) 48"
    unfolding ds by (rule strip_trailing(1))
  show a: "ds \<noteq> []" and c: "hd ds \<noteq> 48"
    using strip_trailing(2) [OF dg(1,2)] dg(2) by (simp_all add: ds)
  have "list_all is_digit (ds @ replicate (length dg - length ds) 48)" using dg(3) split by simp
  then show "list_all is_digit ds" by simp
  define z where "z = length dg - length ds"
  have len: "length dg = length ds + z" using arg_cong [OF split, of length] unfolding z_def
    by simp
  have "decimal_value dg = decimal_value ds * 10 ^ z"
    using decimal_value_append [of ds "replicate z 48"] split
    by (simp add: z_def decimal_value_zeros)
  then have "nat m = decimal_value ds * 10 ^ z" using dg(4) by simp
  then have "(of_nat (nat m) :: rat) = of_nat (decimal_value ds * 10 ^ z)" by (simp only:)
  moreover have "(of_nat (nat m) :: rat) = of_int m" using ok(1) by simp
  ultimately have v: "(of_int m :: rat) = of_nat (decimal_value ds) * 10 ^ z" by simp
  have "decpt - int (length ds) = (dexp a + 1 - int n) + int z" by (simp add: decpt len)
  then have "(10::rat) powi (decpt - int (length ds)) = 10 powi (dexp a + 1 - int n) * 10 ^ z"
    by (simp add: power_int_add)
  then have "num_value ds decpt = of_int m * 10 powi (dexp a + 1 - int n)"
    by (simp add: num_value_def v)
  then show "fl (num_value ds decpt) = a" using ok(2) by simp
qed

text \<open>Hence the number scanner reads the text of a float back as that float.\<close>

lemma fl_minus: "fl (- y) = - fl y"
  by (simp add: fl_def sgn_if)

lemma float_layout_head:
  assumes "ds \<noteq> []" and "list_all is_digit ds"
  shows "\<exists>c t. float_layout ds decpt = c # t \<and> is_digit c"
proof -
  obtain x xs where ds: "ds = x # xs" using assms(1) by (cases ds) auto
  have x: "is_digit x" using assms(2) by (simp add: ds)
  have z: "is_digit 48" by (simp add: is_digit_def)
  consider "decpt \<le> - 4 \<or> 16 < decpt" | "- 4 < decpt" "decpt \<le> 0"
    | "0 < decpt" "decpt \<le> 16" "nat decpt < length ds"
    | "0 < decpt" "decpt \<le> 16" "length ds \<le> nat decpt"
    by linarith
  then show ?thesis
  proof cases
    case 1
    then show ?thesis using x by (auto simp: float_layout_def ds)
  next
    case 2
    then show ?thesis using z by (auto simp: float_layout_def str_def)
  next
    case 3
    then obtain k where "nat decpt = Suc k" by (cases "nat decpt") auto
    with 3 show ?thesis using x by (auto simp: float_layout_def ds)
  next
    case 4
    then show ?thesis using x by (auto simp: float_layout_def ds)
  qed
qed

lemma float_repr_head:
  assumes "fl x = x"
  shows "\<exists>c t. float_repr x = c # t \<and> (c = 45 \<or> is_digit c)"
proof (cases "x = 0")
  case True
  then show ?thesis by (simp add: float_repr_def str_def is_digit_def)
next
  case False
  obtain ds decpt where sd: "shortest_digits \<bar>x\<bar> = (ds, decpt)" by (cases "shortest_digits \<bar>x\<bar>")
  have a: "0 < \<bar>x\<bar>" "fl \<bar>x\<bar> = \<bar>x\<bar>"
    using False assms fl_minus [of x] by (simp_all add: abs_if)
  obtain c t where "float_layout ds decpt = c # t" "is_digit c"
    using float_layout_head [OF shortest_digits_ok(1,2) [OF a sd]] by blast
  then show ?thesis using False by (simp add: float_repr_def sd)
qed

lemma float_repr_scan:
  assumes "is_double x" and "delim d"
  shows "scan_number (float_repr x @ d # r) = Some (JFloat x, d # r)"
proof (cases "x = 0")
  case True
  have "scan_number ((if False then [45] else []) @ [48] @ 46 # [48] @ d # r) =
         (if finite_float (fl (number_value False [48] [48] None))
          then Some (JFloat (fl (number_value False [48] [48] None)), d # r) else None)"
    by (rule scan_number_frac [OF _ _ _ _ _ assms(2)]) (simp_all add: is_digit_def)
  moreover have "number_value False [48] [48] None = 0"
    by (simp add: number_value_def decimal_value_def)
  moreover have "fl 0 = 0" "finite_float 0" by (simp_all add: fl_def finite_float_def)
  ultimately show ?thesis using True by (simp add: float_repr_def str_def)
next
  case False
  obtain ds decpt where sd: "shortest_digits \<bar>x\<bar> = (ds, decpt)" by (cases "shortest_digits \<bar>x\<bar>")
  have dx: "fl x = x" "finite_float x" using assms(1) by (simp_all add: is_double_def)
  have a: "0 < \<bar>x\<bar>" "fl \<bar>x\<bar> = \<bar>x\<bar>"
    using False dx(1) fl_minus [of x] by (simp_all add: abs_if)
  note ok = shortest_digits_ok [OF a sd]
  have r: "float_repr x = (if x < 0 then [45] else []) @ float_layout ds decpt"
    using False by (simp add: float_repr_def sd)
  have v: "fl ((if x < 0 then - 1 else 1) * num_value ds decpt) = x"
    using ok(4) fl_minus [of "num_value ds decpt"] by (simp add: abs_if split: if_splits)
  show ?thesis
    unfolding r append_assoc scan_number_layout [OF ok(1,2,3) assms(2)] v
    using dx(2) by simp
qed

lemma parse_float:
  assumes "is_double x" and "delim d"
  shows "parse_value (Suc n) (float_repr x @ d # r) = Some (JFloat x, d # r)"
proof -
  obtain c t where h: "float_repr x = c # t" "c = 45 \<or> is_digit c"
    using float_repr_head [of x] assms(1) by (auto simp: is_double_def)
  have "parse_value (Suc n) (float_repr x @ d # r) = scan_number (float_repr x @ d # r)"
    using h(2) by (auto simp: h(1) str_def is_digit_def)
  then show ?thesis using float_repr_scan [OF assms] by simp
qed

text \<open>Steps of the parser over members and items as the encoder lays them out.\<close>

lemma skip_ws_nonws: "\<not> is_ws c \<Longrightarrow> skip_ws (c # r) = c # r"
  by (simp add: skip_ws_def)

lemma skip_ws_space: "skip_ws (32 # r) = skip_ws r"
  by (simp add: skip_ws_def is_ws_def)

lemma skip_ws_indent: "\<not> is_ws c \<Longrightarrow> skip_ws (newline_indent l @ c # r) = c # r"
proof -
  assume c: "\<not> is_ws c"
  have "skip_ws (replicate k 32 @ c # r) = c # r" for k
    using c by (induction k) (simp_all add: skip_ws_def is_ws_def)
  then show ?thesis by (simp add: newline_indent_def skip_ws_def is_ws_def)
qed

lemma not_ws: "\<not> is_ws 34" "\<not> is_ws 44" "\<not> is_ws 58" "\<not> is_ws 125" "\<not> is_ws 93"
  "\<not> is_ws 123" "\<not> is_ws 91"
  by (simp_all add: is_ws_def)

lemma scan_key:
  "scanstring (concat (map escape_char key) @ 34 # rest) = Some (key, rest)"
  by (rule scanstring_escaped)

lemma parse_members_cons:
  assumes "parse_value n (V @ 44 # rest) = Some (v, 44 # rest)"
    and "skip_ws (V @ 44 # rest) = V @ 44 # rest"
  shows "parse_members (Suc n) (encode_basestring key @ str '': '' @ V @ 44 # rest) =
           map_option (\<lambda>(kvs, r). ((key, v) # kvs, r)) (parse_members n (skip_ws rest))"
proof -
  have e: "encode_basestring key @ str '': '' @ V @ 44 # rest =
      34 # concat (map escape_char key) @ 34 # 58 # 32 # V @ 44 # rest"
    by (simp add: encode_basestring_def str_def)
  show ?thesis
    unfolding e
    by (simp add: scan_key skip_ws_nonws not_ws skip_ws_space assms)
qed

lemma parse_members_last:
  assumes "parse_value n (V @ newline_indent l @ 125 # rest) = Some (v, newline_indent l @ 125 # rest)"
    and "skip_ws (V @ newline_indent l @ 125 # rest) = V @ newline_indent l @ 125 # rest"
  shows "parse_members (Suc n) (encode_basestring key @ str '': '' @ V @ newline_indent l @ 125 # rest) =
           Some ([(key, v)], rest)"
proof -
  have e: "encode_basestring key @ str '': '' @ V @ newline_indent l @ 125 # rest =
      34 # concat (map escape_char key) @ 34 # 58 # 32 # V @ newline_indent l @ 125 # rest"
    by (simp add: encode_basestring_def str_def)
  show ?thesis
    unfolding e
    by (simp add: scan_key skip_ws_nonws not_ws skip_ws_space assms skip_ws_indent)
qed

lemma parse_items_cons:
  assumes "parse_value n (V @ 44 # rest) = Some (v, 44 # rest)"
  shows "parse_items (Suc n) (V @ 44 # rest) =
           map_option (\<lambda>(vs, r). (v # vs, r)) (parse_items n (skip_ws rest))"
  by (simp add: assms skip_ws_nonws not_ws)

lemma parse_items_last:
  assumes "parse_value n (V @ newline_indent l @ 93 # rest) = Some (v, newline_indent l @ 93 # rest)"
  shows "parse_items (Suc n) (V @ newline_indent l @ 93 # rest) = Some ([v], rest)"
  by (simp add: assms skip_ws_indent not_ws)

lemma skip_ws_string: "skip_ws (encode_basestring s @ r) = encode_basestring s @ r"
  by (simp add: encode_basestring_def skip_ws_nonws not_ws)

lemma skip_ws_float:
  assumes "fl x = x"
  shows "skip_ws (float_repr x @ r) = float_repr x @ r"
proof -
  obtain c t where h: "float_repr x = c # t" "c = 45 \<or> is_digit c"
    using float_repr_head [OF assms] by blast
  then have "\<not> is_ws c" by (auto simp: is_ws_def is_digit_def)
  then show ?thesis by (simp add: h(1) skip_ws_nonws)
qed

text \<open>The encoder writes the layout above.\<close>

lemma output_data_eq: "output_data result = result_json result"
  by (simp add: output_data_def result_json_def segment_json_def [abs_def])

lemma iterencode_segment: "iterencode 2 (segment_json seg) = segment_text seg"
  by (simp add: segment_json_def segment_text_def numeral_2_eq_2 numeral_3_eq_3)

lemma iterencode_segments:
  "iterencode 1 (JList (map segment_json segs)) = segments_text segs"
proof -
  have m: "map (iterencode (Suc (Suc 0)) \<circ> segment_json) segs = map segment_text segs"
    by (simp add: iterencode_segment [unfolded numeral_2_eq_2])
  show ?thesis
    by (simp add: segments_text_def numeral_2_eq_2 m)
qed

lemma json_dumps_result: "json_dumps (output_data result) = result_text result"
  unfolding json_dumps_def output_data_eq result_json_def
  using iterencode_segments [of "res_segments result"]
  by (simp add: result_text_def)

text \<open>A segment, the list of segments and the whole object are read back.\<close>

lemma skip_ws_indent_string:
  "skip_ws (newline_indent l @ encode_basestring k @ r) = encode_basestring k @ r"
  using skip_ws_indent [of 34 l] by (simp add: encode_basestring_def not_ws)

lemma delim_comma: "delim 44"
  by (simp add: delim_def is_digit_def)

lemma dict_three:
  "k1 \<noteq> k2 \<Longrightarrow> k1 \<noteq> k3 \<Longrightarrow> k2 \<noteq> k3 \<Longrightarrow>
   dict_of_pairs [(k1, v1), (k2, v2), (k3, v3)] = [(k1, v1), (k2, v2), (k3, v3)]"
  by (auto simp: dict_of_pairs_def)

lemma segment_keys:
  "str ''start'' \<noteq> str ''end''" "str ''start'' \<noteq> str ''text''" "str ''end'' \<noteq> str ''text''"
  "str ''text'' \<noteq> str ''language''" "str ''text'' \<noteq> str ''segments''"
  "str ''language'' \<noteq> str ''segments''"
  by (simp_all add: str_def)

lemma parse_segment:
  assumes "is_double (seg_start seg)" and "is_double (seg_end seg)"
  shows "parse_value (Suc (Suc (Suc (Suc (Suc n))))) (segment_text seg @ rest) =
         Some (segment_json seg, rest)"
proof -
  define t3 where "t3 = encode_basestring (str ''text'') @ str '': '' @
      encode_basestring (seg_text seg) @ newline_indent 2 @ 125 # rest"
  define t2 where "t2 = encode_basestring (str ''end'') @ str '': '' @
      float_repr (seg_end seg) @ 44 # newline_indent 3 @ t3"
  define t1 where "t1 = encode_basestring (str ''start'') @ str '': '' @
      float_repr (seg_start seg) @ 44 # newline_indent 3 @ t2"
  have d: "fl (seg_start seg) = seg_start seg" "fl (seg_end seg) = seg_end seg"
    using assms by (simp_all add: is_double_def)
  have whole: "segment_text seg @ rest = 123 # newline_indent 3 @ t1"
    by (simp add: segment_text_def t1_def t2_def t3_def str_def)
  have m3: "parse_members (Suc (Suc n)) t3 = Some ([(str ''text'', JString (seg_text seg))], rest)"
    unfolding t3_def
    by (rule parse_members_last) (simp_all only: parse_string skip_ws_string)
  have s3: "skip_ws (newline_indent 3 @ t3) = t3"
    unfolding t3_def by (rule skip_ws_indent_string)
  have p2: "parse_value (Suc (Suc n)) (float_repr (seg_end seg) @ 44 # newline_indent 3 @ t3) =
      Some (JFloat (seg_end seg), 44 # newline_indent 3 @ t3)"
    by (rule parse_float [OF assms(2) delim_comma])
  have w2: "skip_ws (float_repr (seg_end seg) @ 44 # newline_indent 3 @ t3) =
      float_repr (seg_end seg) @ 44 # newline_indent 3 @ t3"
    by (rule skip_ws_float [OF d(2)])
  have m2: "parse_members (Suc (Suc (Suc n))) t2 =
      Some ([(str ''end'', JFloat (seg_end seg)), (str ''text'', JString (seg_text seg))], rest)"
    unfolding t2_def parse_members_cons [OF p2 w2] s3 m3 by simp
  have s2: "skip_ws (newline_indent 3 @ t2) = t2"
    unfolding t2_def by (rule skip_ws_indent_string)
  have p1: "parse_value (Suc (Suc (Suc n))) (float_repr (seg_start seg) @ 44 # newline_indent 3 @ t2) =
      Some (JFloat (seg_start seg), 44 # newline_indent 3 @ t2)"
    by (rule parse_float [OF assms(1) delim_comma])
  have w1: "skip_ws (float_repr (seg_start seg) @ 44 # newline_indent 3 @ t2) =
      float_repr (seg_start seg) @ 44 # newline_indent 3 @ t2"
    by (rule skip_ws_float [OF d(1)])
  have m1: "parse_members (Suc (Suc (Suc (Suc n)))) t1 =
      Some ([(str ''start'', JFloat (seg_start seg)), (str ''end'', JFloat (seg_end seg)),
             (str ''text'', JString (seg_text seg))], rest)"
    unfolding t1_def parse_members_cons [OF p1 w1] s2 m2 by simp
  have s1: "skip_ws (newline_indent 3 @ t1) = t1"
    unfolding t1_def by (rule skip_ws_indent_string)
  have h: "\<exists>u. t1 = 34 # u" by (simp add: t1_def encode_basestring_def)
  then obtain u where u: "t1 = 34 # u" by blast
  have "parse_value (Suc (Suc (Suc (Suc (Suc n))))) (123 # newline_indent 3 @ t1) =
      map_option (\<lambda>(kvs, rest). (JDict (dict_of_pairs kvs), rest))
        (parse_members (Suc (Suc (Suc (Suc n)))) t1)"
    unfolding parse_value.simps using s1 by (simp add: u del: parse_members.simps)
  then show ?thesis
    unfolding whole m1 by (simp add: segment_json_def dict_three segment_keys)
qed

lemma segment_text_head: "segment_text seg = 123 # tl (segment_text seg)"
  by (simp add: segment_text_def str_def)

lemma skip_ws_indent_segment:
  "skip_ws (newline_indent l @ segment_text seg @ r) = segment_text seg @ r"
  using skip_ws_indent [of 123 l "tl (segment_text seg) @ r"] segment_text_head [of seg]
  by (metis append_Cons not_ws(6))

lemma five: "k + 5 + n = Suc (Suc (Suc (Suc (Suc (k + n)))))"
  by simp

lemma parse_items_segments:
  assumes "segs \<noteq> []"
    and "\<forall>seg\<in>set segs. is_double (seg_start seg) \<and> is_double (seg_end seg)"
  shows "parse_items (length segs + 5 + n)
           (intercalate (str '','' @ newline_indent 2) (map segment_text segs) @
            newline_indent 1 @ 93 # rest)
         = Some (map segment_json segs, rest)"
  using assms
proof (induction segs rule: list_nonempty_induct)
  case (single x)
  have p: "parse_value (Suc (Suc (Suc (Suc (Suc n))))) (segment_text x @ newline_indent 1 @ 93 # rest)
      = Some (segment_json x, newline_indent 1 @ 93 # rest)"
    using single by (intro parse_segment) simp_all
  have e: "length [x] + 5 + n = Suc (Suc (Suc (Suc (Suc (Suc n)))))" by simp
  have t: "intercalate (str '','' @ newline_indent 2) (map segment_text [x]) @
      newline_indent 1 @ 93 # rest = segment_text x @ newline_indent 1 @ 93 # rest" by simp
  have "parse_items (Suc (Suc (Suc (Suc (Suc (Suc n)))))) (segment_text x @ newline_indent 1 @ 93 # rest)
      = Some ([segment_json x], rest)"
    by (rule parse_items_last [OF p])
  then show ?case unfolding e t by (simp only: list.map)
next
  case (cons x xs)
  obtain y ys where xs: "xs = y # ys" using cons.hyps by (cases xs) auto
  define R where "R = intercalate (str '','' @ newline_indent 2) (map segment_text xs) @
      newline_indent 1 @ 93 # rest"
  have hd: "\<exists>r'. R = segment_text y @ r'"
    unfolding R_def xs by (cases ys) simp_all
  then obtain r' where r': "R = segment_text y @ r'" by blast
  have sk: "skip_ws (newline_indent 2 @ R) = R"
    unfolding r' by (rule skip_ws_indent_segment)
  have whole: "intercalate (str '','' @ newline_indent 2) (map segment_text (x # xs)) @
      newline_indent 1 @ 93 # rest = segment_text x @ 44 # newline_indent 2 @ R"
    by (simp add: R_def xs str_def)
  have p: "parse_value (Suc (Suc (Suc (Suc (Suc (length xs + n))))))
        (segment_text x @ 44 # newline_indent 2 @ R)
      = Some (segment_json x, 44 # newline_indent 2 @ R)"
    using cons.prems by (intro parse_segment) simp_all
  have ih: "parse_items (length xs + 5 + n) R = Some (map segment_json xs, rest)"
    unfolding R_def using cons.prems by (intro cons.IH) simp_all
  have "parse_items (Suc (length xs + 5 + n)) (segment_text x @ 44 # newline_indent 2 @ R)
      = map_option (\<lambda>(vs, r). (segment_json x # vs, r)) (parse_items (length xs + 5 + n) (skip_ws (newline_indent 2 @ R)))"
    unfolding five by (rule parse_items_cons [OF p])
  then have "parse_items (Suc (length xs + 5 + n)) (segment_text x @ 44 # newline_indent 2 @ R)
      = Some (map segment_json (x # xs), rest)"
    unfolding sk ih by simp
  moreover have "length (x # xs) + 5 + n = Suc (length xs + 5 + n)" by simp
  ultimately show ?case unfolding whole by (simp only:)
qed

lemma parse_segments_list:
  assumes "\<forall>seg\<in>set segs. is_double (seg_start seg) \<and> is_double (seg_end seg)"
  shows "parse_value (Suc (length segs + 5 + n)) (segments_text segs @ rest)
         = Some (JList (map segment_json segs), rest)"
proof (cases "segs = []")
  case True
  have k: "parse_value (Suc k) (91 # 93 # rest) = Some (JList [], rest)" for k
    by (simp add: skip_ws_nonws not_ws)
  have t: "segments_text segs @ rest = 91 # 93 # rest"
    using True by (simp add: segments_text_def str_def)
  have m: "map segment_json segs = []" using True by simp
  show ?thesis unfolding t m by (rule k)
next
  case False
  then obtain y ys where segs: "segs = y # ys" by (cases segs) auto
  define R where "R = intercalate (str '','' @ newline_indent 2) (map segment_text segs) @
      newline_indent 1 @ 93 # rest"
  have "\<exists>r'. R = segment_text y @ r'"
    unfolding R_def segs by (cases ys) simp_all
  then obtain r' where r': "R = segment_text y @ r'" by blast
  define T where "T = tl (segment_text y) @ r'"
  have h: "R = 123 # T"
    unfolding r' T_def using segment_text_head [of y] by (metis append_Cons)
  have whole: "segments_text segs @ rest = 91 # newline_indent 2 @ R"
    using False by (simp add: segments_text_def R_def str_def)
  have items: "parse_items (length segs + 5 + n) R = Some (map segment_json segs, rest)"
    unfolding R_def by (rule parse_items_segments [OF False assms])
  have "parse_value (Suc k) (91 # newline_indent 2 @ 123 # T) =
      map_option (\<lambda>(vs, rest). (JList vs, rest)) (parse_items k (123 # T))" for k
    by (simp add: skip_ws_indent not_ws)
  then have "parse_value (Suc (length segs + 5 + n)) (91 # newline_indent 2 @ R) =
      map_option (\<lambda>(vs, rest). (JList vs, rest)) (parse_items (length segs + 5 + n) R)"
    unfolding h .
  then show ?thesis unfolding whole items by simp
qed

lemma skip_ws_segments: "skip_ws (segments_text segs @ r) = segments_text segs @ r"
  by (simp add: segments_text_def str_def skip_ws_nonws not_ws)

lemma parse_result:
  assumes "\<forall>seg\<in>set (res_segments result). is_double (seg_start seg) \<and> is_double (seg_end seg)"
  shows "parse_value (Suc (Suc (Suc (Suc (Suc (length (res_segments result) + 5 + n))))))
           (result_text result) = Some (result_json result, [])"
proof -
  define k where "k = Suc (length (res_segments result) + 5 + n)"
  define t3 where "t3 = encode_basestring (str ''segments'') @ str '': '' @
      segments_text (res_segments result) @ newline_indent 0 @ 125 # []"
  define t2 where "t2 = encode_basestring (str ''language'') @ str '': '' @
      encode_basestring (res_language result) @ 44 # newline_indent 1 @ t3"
  define t1 where "t1 = encode_basestring (str ''text'') @ str '': '' @
      encode_basestring (res_text result) @ 44 # newline_indent 1 @ t2"
  have whole: "result_text result = 123 # newline_indent 1 @ t1"
    by (simp add: result_text_def t1_def t2_def t3_def str_def)
  have p3: "parse_value k (segments_text (res_segments result) @ newline_indent 0 @ 125 # []) =
      Some (JList (map segment_json (res_segments result)), newline_indent 0 @ 125 # [])"
    unfolding k_def by (rule parse_segments_list [OF assms])
  have m3: "parse_members (Suc k) t3 =
      Some ([(str ''segments'', JList (map segment_json (res_segments result)))], [])"
    unfolding t3_def by (rule parse_members_last [OF p3 skip_ws_segments])
  have s3: "skip_ws (newline_indent 1 @ t3) = t3"
    unfolding t3_def by (rule skip_ws_indent_string)
  have p2: "parse_value (Suc k) (encode_basestring (res_language result) @ 44 # newline_indent 1 @ t3) =
      Some (JString (res_language result), 44 # newline_indent 1 @ t3)"
    by (rule parse_string)
  have m2: "parse_members (Suc (Suc k)) t2 =
      Some ([(str ''language'', JString (res_language result)),
             (str ''segments'', JList (map segment_json (res_segments result)))], [])"
    unfolding t2_def parse_members_cons [OF p2 skip_ws_string] s3 m3 by simp
  have s2: "skip_ws (newline_indent 1 @ t2) = t2"
    unfolding t2_def by (rule skip_ws_indent_string)
  have p1: "parse_value (Suc (Suc k)) (encode_basestring (res_text result) @ 44 # newline_indent 1 @ t2) =
      Some (JString (res_text result), 44 # newline_indent 1 @ t2)"
    by (rule parse_string)
  have m1: "parse_members (Suc (Suc (Suc k))) t1 =
      Some ([(str ''text'', JString (res_text result)),
             (str ''language'', JString (res_language result)),
             (str ''segments'', JList (map segment_json (res_segments result)))], [])"
    unfolding t1_def parse_members_cons [OF p1 skip_ws_string] s2 m2 by simp
  have s1: "skip_ws (newline_indent 1 @ t1) = t1"
    unfolding t1_def by (rule skip_ws_indent_string)
  have h: "\<exists>u. t1 = 34 # u" by (simp add: t1_def encode_basestring_def)
  then obtain u where u: "t1 = 34 # u" by blast
  have "parse_value (Suc (Suc (Suc (Suc k)))) (123 # newline_indent 1 @ t1) =
      map_option (\<lambda>(kvs, rest). (JDict (dict_of_pairs kvs), rest))
        (parse_members (Suc (Suc (Suc k))) t1)"
    unfolding parse_value.simps using s1 by (simp add: u del: parse_members.simps)
  then have "parse_value (Suc (Suc (Suc (Suc k)))) (result_text result) =
      Some (result_json result, [])"
    unfolding whole m1 by (simp add: result_json_def dict_three segment_keys)
  then show ?thesis unfolding k_def .
qed

lemma length_intercalate:
  "\<forall>x\<in>set xs. x \<noteq> [] \<Longrightarrow> length xs \<le> length (intercalate sep xs)"
proof (induction sep xs rule: intercalate.induct)
  case (2 sep x)
  then have "x \<noteq> []" by simp
  then have "1 \<le> length x" by (cases x) simp_all
  then show ?case by simp
next
  case (3 sep x y ys)
  then have "x \<noteq> []" by simp
  then have "1 \<le> length x" by (cases x) simp_all
  moreover have "length (y # ys) \<le> length (intercalate sep (y # ys))"
    using 3 by simp
  ultimately show ?case by simp
qed simp

lemma length_segments_text: "length segs \<le> length (segments_text segs)"
proof -
  have "\<forall>x\<in>set (map segment_text segs). x \<noteq> []"
    using segment_text_head by (metis (no_types, lifting) imageE list.distinct(1) list.set_map)
  from length_intercalate [OF this, of "str '','' @ newline_indent 2"]
  show ?thesis by (simp add: segments_text_def)
qed

lemma length_result_text: "length (res_segments result) + 9 \<le> length (result_text result)"
proof -
  have "length (result_text result) \<ge> length (segments_text (res_segments result)) + 9"
    by (simp add: result_text_def encode_basestring_def str_def newline_indent_def)
  then show ?thesis using length_segments_text [of "res_segments result"] by linarith
qed

lemma json_loads_result:
  assumes "\<forall>seg\<in>set (res_segments result). is_double (seg_start seg) \<and> is_double (seg_end seg)"
  shows "json_loads (json_dumps (output_data result)) = Some (output_data result)"
proof -
  obtain n where n: "length (result_text result) = length (res_segments result) + 9 + n"
    using length_result_text [of result] by (metis le_Suc_ex)
  have e: "Suc (length (result_text result)) =
      Suc (Suc (Suc (Suc (Suc (length (res_segments result) + 5 + n)))))"
    unfolding n by simp
  have s: "skip_ws (result_text result) = result_text result"
    by (simp add: result_text_def str_def skip_ws_nonws not_ws)
  have "json_loads (result_text result) = Some (result_json result)"
    unfolding json_loads_def s e parse_result [OF assms] by (simp add: skip_ws_def)
  then have "json_loads (json_dumps (output_data result)) = Some (result_json result)"
    unfolding json_dumps_result .
  then show ?thesis by (simp only: output_data_eq)
qed

text \<open>Decoding undoes the UTF-8 encoding.\<close>

lemma split3: "c div 4096 * 4096 + c div 64 mod 64 * 64 + c mod 64 = (c::nat)"
proof -
  define d where "d = c div 64"
  have a: "c = d * 64 + c mod 64" by (simp add: d_def)
  have b: "d = d div 64 * 64 + d mod 64" by simp
  have e: "c div 4096 = d div 64" by (simp add: d_def div_mult2_eq [symmetric])
  show ?thesis unfolding e d_def [symmetric] using a b by linarith
qed

lemma split4:
  "c div 262144 * 262144 + c div 4096 mod 64 * 4096 + c div 64 mod 64 * 64 + c mod 64 = (c::nat)"
proof -
  define d where "d = c div 64"
  define e where "e = d div 64"
  have a: "c = d * 64 + c mod 64" by (simp add: d_def)
  have b: "d = e * 64 + d mod 64" by (simp add: e_def)
  have f: "e = e div 64 * 64 + e mod 64" by simp
  have g: "c div 4096 = e" by (simp add: e_def d_def div_mult2_eq [symmetric])
  have h: "c div 262144 = e div 64" by (simp add: e_def d_def div_mult2_eq [symmetric])
  show ?thesis unfolding g h d_def [symmetric] using a b f by linarith
qed

lemma decode2:
  "2 \<le> h \<Longrightarrow> h < 32 \<Longrightarrow> l < 64 \<Longrightarrow>
   utf8_decode ((192 + h) # (128 + l) # r) = map_option (\<lambda>r. (h * 64 + l) # r) (utf8_decode r)"
  by (simp add: cont_def)

lemma decode3:
  "h < 16 \<Longrightarrow> m < 64 \<Longrightarrow> l < 64 \<Longrightarrow> 2048 \<le> h * 4096 + m * 64 + l \<Longrightarrow>
   \<not> (55296 \<le> h * 4096 + m * 64 + l \<and> h * 4096 + m * 64 + l < 57344) \<Longrightarrow>
   utf8_decode ((224 + h) # (128 + m) # (128 + l) # r) =
     map_option (\<lambda>r. (h * 4096 + m * 64 + l) # r) (utf8_decode r)"
  by (simp add: cont_def Let_def)

lemma decode4:
  "h < 5 \<Longrightarrow> k < 64 \<Longrightarrow> m < 64 \<Longrightarrow> l < 64 \<Longrightarrow> 65536 \<le> h * 262144 + k * 4096 + m * 64 + l \<Longrightarrow>
   h * 262144 + k * 4096 + m * 64 + l < 1114112 \<Longrightarrow>
   utf8_decode ((240 + h) # (128 + k) # (128 + m) # (128 + l) # r) =
     map_option (\<lambda>r. (h * 262144 + k * 4096 + m * 64 + l) # r) (utf8_decode r)"
  by (simp add: cont_def Let_def)

lemma utf8_decode_char:
  assumes "utf8_char c = Some bs"
  shows "utf8_decode (bs @ r) = map_option (\<lambda>r. c # r) (utf8_decode r)"
proof -
  consider "c < 128" | "128 \<le> c" "c < 2048" | "2048 \<le> c" "c < 65536" | "65536 \<le> c"
    by linarith
  then show ?thesis
  proof cases
    case 1
    then have "bs = [c]" using assms by (simp add: utf8_char_def)
    then show ?thesis using 1 by simp
  next
    case 2
    then have bs: "bs = [192 + c div 64, 128 + c mod 64]"
      using assms by (simp add: utf8_char_def)
    have h: "2 \<le> c div 64" "c div 64 < 32" using 2 by simp_all
    have "utf8_decode ((192 + c div 64) # (128 + c mod 64) # r) =
        map_option (\<lambda>r. (c div 64 * 64 + c mod 64) # r) (utf8_decode r)"
      by (rule decode2 [OF h]) simp
    then show ?thesis unfolding bs by (simp del: utf8_decode.simps)
  next
    case 3
    then have s: "\<not> (55296 \<le> c \<and> c < 57344)"
      and bs: "bs = [224 + c div 4096, 128 + c div 64 mod 64, 128 + c mod 64]"
      using assms by (simp_all add: utf8_char_def split: if_splits)
    have h: "c div 4096 < 16" using 3 by simp
    have "utf8_decode ((224 + c div 4096) # (128 + c div 64 mod 64) # (128 + c mod 64) # r) =
        map_option (\<lambda>r. (c div 4096 * 4096 + c div 64 mod 64 * 64 + c mod 64) # r) (utf8_decode r)"
    proof (rule decode3 [OF h])
      show "c div 64 mod 64 < 64" "c mod 64 < 64" by simp_all
      show "2048 \<le> c div 4096 * 4096 + c div 64 mod 64 * 64 + c mod 64"
        unfolding split3 by (rule 3(1))
      show "\<not> (55296 \<le> c div 4096 * 4096 + c div 64 mod 64 * 64 + c mod 64 \<and>
          c div 4096 * 4096 + c div 64 mod 64 * 64 + c mod 64 < 57344)"
        unfolding split3 by (rule s)
    qed
    then show ?thesis unfolding bs split3 by (simp del: utf8_decode.simps)
  next
    case 4
    then have u: "c < 1114112"
      and bs: "bs = [240 + c div 262144, 128 + c div 4096 mod 64, 128 + c div 64 mod 64,
                 128 + c mod 64]"
      using assms by (simp_all add: utf8_char_def split: if_splits)
    have h: "c div 262144 < 5" using u by simp
    have "utf8_decode ((240 + c div 262144) # (128 + c div 4096 mod 64) # (128 + c div 64 mod 64) #
          (128 + c mod 64) # r) =
        map_option (\<lambda>r. (c div 262144 * 262144 + c div 4096 mod 64 * 4096 + c div 64 mod 64 * 64 +
          c mod 64) # r) (utf8_decode r)"
    proof (rule decode4 [OF h])
      show "c div 4096 mod 64 < 64" "c div 64 mod 64 < 64" "c mod 64 < 64" by simp_all
      show "65536 \<le> c div 262144 * 262144 + c div 4096 mod 64 * 4096 + c div 64 mod 64 * 64 +
          c mod 64"
        unfolding split4 by (rule 4)
      show "c div 262144 * 262144 + c div 4096 mod 64 * 4096 + c div 64 mod 64 * 64 + c mod 64
          < 1114112"
        unfolding split4 by (rule u)
    qed
    then show ?thesis unfolding bs split4 by (simp del: utf8_decode.simps)
  qed
qed

lemma utf8_round_trip: "utf8_encode s = Some bs \<Longrightarrow> utf8_decode bs = Some s"
proof (induction s arbitrary: bs)
  case Nil
  then show ?case by simp
next
  case (Cons c s)
  then obtain b r where b: "utf8_char c = Some b" and r: "utf8_encode s = Some r"
    and bs: "bs = b @ r"
    by (auto split: option.splits)
  show ?case unfolding bs utf8_decode_char [OF b] using Cons.IH [OF r] by simp
qed

lemma utf8_encode_scalar: "list_all scalar s \<Longrightarrow> \<exists>bs. utf8_encode s = Some bs"
proof (induction s)
  case Nil
  then show ?case by simp
next
  case (Cons c s)
  then have "scalar c" by simp
  then have "\<exists>b. utf8_char c = Some b" unfolding scalar_def utf8_char_def by auto
  then show ?case using Cons by auto
qed


end
